theory Spec2Isabelle
  imports Main "HOL-Library.Word" "HOL-Library.Signed_Division"
begin

unbundle bit_operations_syntax

section \<open>The processor core of riscv/processor.cc\<close>

text \<open>
  The theory embeds \<^verbatim>\<open>processor_t\<close> of \<^verbatim>\<open>riscv/processor.cc\<close>: the status
  register write \<^verbatim>\<open>set_sr\<close>, the vector configuration (\<^verbatim>\<open>vcfg\<close>, \<^verbatim>\<open>setvl\<close>),
  \<^verbatim>\<open>reset\<close>, the interrupt check, trap delivery and the stepping loop with its timer.

  The headers of the class are not part of the sources at hand, so every constant that
  \<^verbatim>\<open>processor.cc\<close> takes from them is a field of the record \<open>config\<close> below: the
  status-register masks, the interrupt numbers, the first interrupt trap code, the
  number of microthreads and the four build switches. No value is fixed; a theorem that
  needs a property of the masks says so in a hypothesis.
\<close>

subsection \<open>Constants of the headers and the build\<close>

record config =
  SR_ZERO :: "32 word"
  SR_SX :: "32 word"
  SR_UX :: "32 word"
  SR_EF :: "32 word"
  SR_EC :: "32 word"
  SR_EV :: "32 word"
  SR_VM :: "32 word"
  SR_S :: "32 word"
  SR_PS :: "32 word"
  SR_ET :: "32 word"
  SR_IM :: "32 word"
  SR_IM_SHIFT :: nat
  FSR_ZERO :: "32 word"
  MAX_UTS :: int
  trap_irq0 :: nat
  TIMER_IRQ :: nat
  IPI_IRQ :: nat
  RISCV_ENABLE_64BIT :: bool
  RISCV_ENABLE_FPU :: bool
  RISCV_ENABLE_RVC :: bool
  RISCV_ENABLE_VEC :: bool

subsection \<open>State\<close>

text \<open>
  \<^verbatim>\<open>reg_t\<close> is a 64-bit unsigned integer; \<^verbatim>\<open>sr\<close>, \<^verbatim>\<open>fsr\<close>, \<^verbatim>\<open>count\<close>,
  \<^verbatim>\<open>compare\<close> and \<^verbatim>\<open>interrupts_pending\<close> are \<^verbatim>\<open>uint32_t\<close> (the code copies
  \<^verbatim>\<open>count\<close> into a \<^verbatim>\<open>uint32_t\<close> and widens it before the comparison with
  \<^verbatim>\<open>compare\<close>). The vector fields are C++ \<^verbatim>\<open>int\<close> (\<^verbatim>\<open>std::min(vlmax, vlapp)\<close>
  needs both of one type), 32 bits wide. They are HOL integers here, and every sum,
  difference, product and quotient that the code forms on them is reduced to the 32-bit
  two's-complement range by \<open>int32\<close>, which is what the compiled code computes when
  an operation overflows. A trap is the number of its enumerator.

  The memory-management unit is a collaborator of which only the interface used here is
  kept: the two flags that \<^verbatim>\<open>set_sr\<close> forwards, the number of TLB flushes, and the
  address that \<^verbatim>\<open>get_badvaddr\<close> returns.
\<close>

type_synonym reg_t = "64 word"
type_synonym trap_t = nat

record mmu_t =
  vm_enabled :: bool
  supervisor :: bool
  tlb_flushes :: nat
  mmu_badvaddr :: reg_t

record processor_t =
  mmu :: mmu_t
  id :: "32 word"
  run :: bool
  sr :: "32 word"
  fsr :: "32 word"
  xprlen :: int
  evec :: reg_t
  pc :: reg_t
  epc :: reg_t
  badvaddr :: reg_t
  cause :: reg_t
  pcr_k0 :: reg_t
  pcr_k1 :: reg_t
  count :: "32 word"
  compare :: "32 word"
  cycle :: reg_t
  interrupts_pending :: "32 word"
  XPR :: "nat \<Rightarrow> reg_t"
  FPR :: "nat \<Rightarrow> reg_t"
  vecbanks :: reg_t
  vecbanks_count :: int
  utidx :: int
  vlmax :: int
  vl :: int
  nxfpr_bank :: int
  nxpr_use :: int
  nfpr_use :: int

subsection \<open>Status registers\<close>

text \<open>
  \<^verbatim>\<open>set_sr\<close>. The value it stores (lines 78 to 91) is \<open>sr_masked\<close>, with each
  \<^verbatim>\<open>#ifndef\<close> block as a test of the build switch; the rest of the function is
  \<open>set_sr\<close>.
\<close>

definition sr_masked :: "config \<Rightarrow> 32 word \<Rightarrow> 32 word" where
  "sr_masked cfg val =
     (let sr0 = val AND NOT (SR_ZERO cfg);
          sr1 = (if RISCV_ENABLE_64BIT cfg then sr0 else sr0 AND NOT (SR_SX cfg OR SR_UX cfg));
          sr2 = (if RISCV_ENABLE_FPU cfg then sr1 else sr1 AND NOT (SR_EF cfg));
          sr3 = (if RISCV_ENABLE_RVC cfg then sr2 else sr2 AND NOT (SR_EC cfg));
          sr4 = (if RISCV_ENABLE_VEC cfg then sr3 else sr3 AND NOT (SR_EV cfg))
      in sr4)"

definition set_sr :: "config \<Rightarrow> 32 word \<Rightarrow> processor_t \<Rightarrow> processor_t" where
  "set_sr cfg val s =
     (let sr' = sr_masked cfg val;
          m = mmu s;
          m' = m\<lparr>vm_enabled := (sr' AND SR_VM cfg \<noteq> 0),
                 supervisor := (sr' AND SR_S cfg \<noteq> 0),
                 tlb_flushes := Suc (tlb_flushes m)\<rparr>
      in s\<lparr>sr := sr', mmu := m',
            xprlen := (if (if sr' AND SR_S cfg \<noteq> 0 then sr' AND SR_SX cfg
                           else sr' AND SR_UX cfg) \<noteq> 0
                       then 64 else 32)\<rparr>)"

definition set_fsr :: "config \<Rightarrow> 32 word \<Rightarrow> processor_t \<Rightarrow> processor_t" where
  "set_fsr cfg val s = s\<lparr>fsr := val AND NOT (FSR_ZERO cfg)\<rparr>"

subsection \<open>Vector configuration\<close>

text \<open>The value of a 32-bit \<^verbatim>\<open>int\<close> operation whose exact result is \<open>k\<close>.\<close>

definition int32 :: "int \<Rightarrow> int" where
  "int32 k = (k + 2 ^ 31) mod 2 ^ 32 - 2 ^ 31"

text \<open>
  \<^verbatim>\<open>vcfg\<close>. C++ \<^verbatim>\<open>/\<close> on \<^verbatim>\<open>int\<close> truncates towards zero: \<open>sdiv\<close>. The divisor
  is at least 1 in the branch that divides.
\<close>

definition vcfg :: "config \<Rightarrow> processor_t \<Rightarrow> processor_t" where
  "vcfg cfg s =
     (let d = int32 (nxpr_use s + nfpr_use s);
          v = (if d < 2
               then int32 (nxfpr_bank s * vecbanks_count s)
               else int32 (int32 (nxfpr_bank s sdiv int32 (d - 1)) * vecbanks_count s))
      in s\<lparr>vlmax := min v (MAX_UTS cfg)\<rparr>)"

definition setvl :: "int \<Rightarrow> processor_t \<Rightarrow> processor_t" where
  "setvl vlapp s = s\<lparr>vl := min (vlmax s) vlapp\<rparr>"

subsection \<open>Reset\<close>

definition reset :: "config \<Rightarrow> processor_t \<Rightarrow> processor_t" where
  "reset cfg s =
     (let s1 = s\<lparr>run := False\<rparr>;
          s2 = set_sr cfg (SR_S cfg OR SR_SX cfg OR SR_ET cfg OR SR_IM cfg) s1;
          s3 = s2\<lparr>evec := 0x2000\<rparr>;
          s4 = s3\<lparr>XPR := (\<lambda>r. 0), FPR := (\<lambda>r. 0)\<rparr>;
          s5 = s4\<lparr>pc := 0, epc := 0, badvaddr := 0, cause := 0, pcr_k0 := 0, pcr_k1 := 0,
                  count := 0, compare := 0, cycle := 0\<rparr>;
          s6 = set_fsr cfg 0 s5
      in s6\<lparr>vecbanks := 0xff, vecbanks_count := 8, utidx := - 1, vlmax := 32, vl := 0,
             nxfpr_bank := 256, nxpr_use := 32, nfpr_use := 32\<rparr>)"

subsection \<open>Interrupt check and trap delivery\<close>

text \<open>
  The scan \<^verbatim>\<open>for(int i = 0; ; i++, interrupts >>= 1)\<close> has no exit but the
  \<^verbatim>\<open>throw\<close>: on a word without a set bit it would not return, which is the value
  \<open>None\<close> here.
\<close>

partial_function (option) irq_scan :: "32 word \<Rightarrow> nat \<Rightarrow> nat option" where
  "irq_scan interrupts i =
     (if interrupts AND 1 \<noteq> 0 then Some i
      else irq_scan (drop_bit 1 interrupts) (i + 1))"

text \<open>
  \<^verbatim>\<open>take_interrupt\<close> assigns no member of the processor, so the model returns only how
  the call ends: \<open>Some None\<close> when it returns, \<open>Some (Some t)\<close> when it throws the
  trap \<open>t\<close>, \<open>None\<close> when the scan does not return.
\<close>

definition take_interrupt :: "config \<Rightarrow> processor_t \<Rightarrow> trap_t option option" where
  "take_interrupt cfg s =
     (let interrupts = interrupts_pending s AND drop_bit (SR_IM_SHIFT cfg) (sr s AND SR_IM cfg)
      in if interrupts \<noteq> 0 \<and> sr s AND SR_ET cfg \<noteq> 0
         then map_option (\<lambda>i. Some (trap_irq0 cfg + i)) (irq_scan interrupts 0)
         else Some None)"

text \<open>\<^verbatim>\<open>take_trap\<close>; the \<^verbatim>\<open>printf\<close> under \<^verbatim>\<open>noisy\<close> changes no state.\<close>

definition take_trap :: "config \<Rightarrow> trap_t \<Rightarrow> processor_t \<Rightarrow> processor_t" where
  "take_trap cfg t s =
     (let s1 = set_sr cfg
                 ((((sr s AND NOT (SR_ET cfg)) OR SR_S cfg) AND NOT (SR_PS cfg))
                  OR (if sr s AND SR_S cfg \<noteq> 0 then SR_PS cfg else 0)) s;
          s2 = s1\<lparr>cause := of_nat t\<rparr>;
          s3 = s2\<lparr>epc := pc s2\<rparr>;
          s4 = s3\<lparr>pc := evec s3\<rparr>
      in s4\<lparr>badvaddr := mmu_badvaddr (mmu s4)\<rparr>)"

definition deliver_ipi :: "config \<Rightarrow> processor_t \<Rightarrow> processor_t" where
  "deliver_ipi cfg s =
     s\<lparr>interrupts_pending := interrupts_pending s OR push_bit (IPI_IRQ cfg) 1, run := True\<rparr>"

subsection \<open>The stepping loop\<close>

text \<open>
  What an instruction does is outside \<^verbatim>\<open>processor.cc\<close>: \<^verbatim>\<open>load_insn\<close> and the
  handler \<^verbatim>\<open>func\<close> are a parameter \<open>ex\<close> of the model. Given \<^verbatim>\<open>npc\<close> and the
  processor it yields the processor as the instruction leaves it and either the next
  program counter or the signal that the fetch or the handler threw.
\<close>

datatype vt_command_t = vt_command_stop | vt_command_other

datatype signal = Trap trap_t | Vt_command vt_command_t | Halt

type_synonym insn_exec = "reg_t \<Rightarrow> processor_t \<Rightarrow> (signal + reg_t) \<times> processor_t"

text \<open>The macro \<^verbatim>\<open>execute_insn\<close>; \<^verbatim>\<open>disasm\<close> only prints.\<close>

definition execute_insn ::
  "insn_exec \<Rightarrow> reg_t \<Rightarrow> processor_t \<Rightarrow> (signal \<times> processor_t) + (reg_t \<times> processor_t)" where
  "execute_insn ex npc s =
     (case ex npc s of
        (Inl sig, s') \<Rightarrow> Inl (sig, s')
      | (Inr npc', s') \<Rightarrow> Inr (npc', s'\<lparr>pc := npc'\<rparr>))"

text \<open>
  The loop \<^verbatim>\<open>for( ; i < n; i++) execute_insn(...)\<close>, used with and without
  \<^verbatim>\<open>noisy\<close>. A signal leaves the loop with the value \<^verbatim>\<open>i\<close> has at the throw.
  \<^verbatim>\<open>n\<close> and \<^verbatim>\<open>i\<close> are \<^verbatim>\<open>size_t\<close>; they are natural numbers here, so the
  model covers the calls in which \<^verbatim>\<open>i\<close> stays below \<open>2^64\<close>.
\<close>

function insn_loop ::
  "insn_exec \<Rightarrow> nat \<Rightarrow> nat \<Rightarrow> reg_t \<Rightarrow> processor_t
     \<Rightarrow> (signal \<times> nat \<times> processor_t) + (nat \<times> reg_t \<times> processor_t)" where
  "insn_loop ex n i npc s =
     (if i < n
      then (case execute_insn ex npc s of
              Inl (sig, s') \<Rightarrow> Inl (sig, i, s')
            | Inr (npc', s') \<Rightarrow> insn_loop ex n (i + 1) npc' s')
      else Inr (i, npc, s))"
  by pat_completeness auto
termination
  by (relation "measure (\<lambda>(ex, n, i, npc, s). n - i)") auto

text \<open>
  The unrolled loop \<^verbatim>\<open>for( ; n > 3 && i < n-3; i+=4)\<close>: \<^verbatim>\<open>i\<close> moves only after
  four instructions, so a signal from any of the four leaves with the \<^verbatim>\<open>i\<close> of the
  start of the group.
\<close>

function insn_loop4 ::
  "insn_exec \<Rightarrow> nat \<Rightarrow> nat \<Rightarrow> reg_t \<Rightarrow> processor_t
     \<Rightarrow> (signal \<times> nat \<times> processor_t) + (nat \<times> reg_t \<times> processor_t)" where
  "insn_loop4 ex n i npc s =
     (if n > 3 \<and> i < n - 3
      then (case execute_insn ex npc s of
              Inl (sig, s') \<Rightarrow> Inl (sig, i, s')
            | Inr (npc1, s1) \<Rightarrow>
          (case execute_insn ex npc1 s1 of
              Inl (sig, s') \<Rightarrow> Inl (sig, i, s')
            | Inr (npc2, s2) \<Rightarrow>
          (case execute_insn ex npc2 s2 of
              Inl (sig, s') \<Rightarrow> Inl (sig, i, s')
            | Inr (npc3, s3) \<Rightarrow>
          (case execute_insn ex npc3 s3 of
              Inl (sig, s') \<Rightarrow> Inl (sig, i, s')
            | Inr (npc4, s4) \<Rightarrow> insn_loop4 ex n (i + 4) npc4 s4))))
      else Inr (i, npc, s))"
  by pat_completeness auto
termination
  by (relation "measure (\<lambda>(ex, n, i, npc, s). n - i)") auto

text \<open>The body of the \<^verbatim>\<open>try\<close> block after the interrupt check (lines 157 to 171).\<close>

definition run_insns ::
  "insn_exec \<Rightarrow> bool \<Rightarrow> nat \<Rightarrow> nat \<Rightarrow> reg_t \<Rightarrow> processor_t
     \<Rightarrow> (signal \<times> nat \<times> processor_t) + (nat \<times> reg_t \<times> processor_t)" where
  "run_insns ex noisy n i npc s =
     (if noisy then insn_loop ex n i npc s
      else (case insn_loop4 ex n i npc s of
              Inl r \<Rightarrow> Inl r
            | Inr (i', npc', s') \<Rightarrow> insn_loop ex n i' npc' s'))"

text \<open>
  How the \<^verbatim>\<open>while(1) try ... catch\<close> statement is left: by a \<^verbatim>\<open>break\<close>, with
  the final \<^verbatim>\<open>i\<close>; by the \<^verbatim>\<open>return\<close> of the \<^verbatim>\<open>halt_t\<close> handler; or by the
  failure of \<^verbatim>\<open>assert(cmd == vt_command_stop)\<close>. Each carries the list of the traps
  that were handed to \<^verbatim>\<open>take_trap\<close>, oldest first, with their origin. The program keeps
  no such list: it is carried along only so that statements about the traps delivered
  during one call can be made.
\<close>

datatype trap_origin = From_interrupt trap_t | From_insn trap_t

datatype loop_exit =
    Break nat processor_t "trap_origin list"
  | Halt_return processor_t "trap_origin list"
  | Assert_failed "trap_origin list"

text \<open>
  The \<^verbatim>\<open>while(1)\<close> statement of \<^verbatim>\<open>step\<close>. Nothing in it bounds the number of
  rounds, so it is a partial function; that it returns is a theorem below.
\<close>

partial_function (option) step_loop ::
  "config \<Rightarrow> insn_exec \<Rightarrow> bool \<Rightarrow> nat \<Rightarrow> nat \<Rightarrow> processor_t \<Rightarrow> trap_origin list
     \<Rightarrow> loop_exit option" where
  "step_loop cfg ex noisy n i s tr =
     (case take_interrupt cfg s of
        None \<Rightarrow> None
      | Some (Some t) \<Rightarrow>
          step_loop cfg ex noisy n (i + 1) (take_trap cfg t s) (tr @ [From_interrupt t])
      | Some None \<Rightarrow>
          (case run_insns ex noisy n i (pc s) s of
             Inr (i', npc, s') \<Rightarrow> Some (Break i' s' tr)
           | Inl (Trap t, i', s') \<Rightarrow>
               step_loop cfg ex noisy n (i' + 1) (take_trap cfg t s') (tr @ [From_insn t])
           | Inl (Vt_command cmd, i', s') \<Rightarrow>
               (if cmd = vt_command_stop then Some (Break (i' + 1) s' tr)
                else Some (Assert_failed tr))
           | Inl (Halt, i', s') \<Rightarrow> Some (Halt_return (reset cfg s') tr)))"

text \<open>Lines 195 to 201: the cycle counter, the timer and its interrupt.\<close>

definition update_timer :: "config \<Rightarrow> nat \<Rightarrow> processor_t \<Rightarrow> processor_t" where
  "update_timer cfg i s =
     (let s1 = s\<lparr>cycle := cycle s + of_nat i\<rparr>;
          old_count = count s1;
          s2 = s1\<lparr>count := count s1 + of_nat i\<rparr>
      in if old_count < compare s2
            \<and> (ucast old_count + of_nat i :: 64 word) \<ge> ucast (compare s2)
         then s2\<lparr>interrupts_pending := interrupts_pending s2 OR push_bit (TIMER_IRQ cfg) 1\<rparr>
         else s2)"

datatype error = Assertion_failure

text \<open>\<^verbatim>\<open>step\<close>: \<open>None\<close> when the call does not return.\<close>

definition step ::
  "config \<Rightarrow> insn_exec \<Rightarrow> nat \<Rightarrow> bool \<Rightarrow> processor_t \<Rightarrow> (error + processor_t) option" where
  "step cfg ex n noisy s =
     (if \<not> run s then Some (Inr s)
      else (case step_loop cfg ex noisy n 0 s [] of
              None \<Rightarrow> None
            | Some (Break i s' tr) \<Rightarrow> Some (Inr (update_timer cfg i s'))
            | Some (Halt_return s' tr) \<Rightarrow> Some (Inr s')
            | Some (Assert_failed tr) \<Rightarrow> Some (Inl Assertion_failure)))"

text \<open>
  The two constructors. A constructor runs on a fresh object whose members hold whatever
  the memory held: the argument \<open>raw\<close>. The memory-management unit is one object that
  the core and all its microthreads refer to; the field \<open>mmu\<close> of a record is that
  object as the processor last left it.

  The constructor of a microthread (lines 21 to 32): \<^verbatim>\<open>reset\<close>, then \<^verbatim>\<open>set_sr\<close> with
  the floating-point and vector bits, then \<^verbatim>\<open>utidx\<close>.
\<close>

definition new_microthread :: "config \<Rightarrow> 32 word \<Rightarrow> int \<Rightarrow> processor_t \<Rightarrow> processor_t" where
  "new_microthread cfg core_id ut raw =
     (let s1 = reset cfg (raw\<lparr>id := core_id\<rparr>);
          s2 = set_sr cfg (sr s1 OR SR_EF cfg OR SR_EV cfg) s1
      in s2\<lparr>utidx := ut\<rparr>)"

text \<open>
  The loop \<^verbatim>\<open>for (int i=0; i<MAX_UTS; i++) uts[i] = new processor_t(&sim, &mmu, id, i)\<close>
  with \<open>k\<close> rounds to go from index \<open>i\<close>. Each microthread is built on its own fresh
  memory \<open>raws i\<close> and on the shared unit \<open>m\<close> as the constructors before it left it;
  the result is the microthreads in order and the shared unit after the last one.
\<close>

fun new_uts ::
  "config \<Rightarrow> 32 word \<Rightarrow> (nat \<Rightarrow> processor_t) \<Rightarrow> nat \<Rightarrow> nat \<Rightarrow> mmu_t
     \<Rightarrow> processor_t list \<times> mmu_t" where
  "new_uts cfg core_id raws i 0 m = ([], m)"
| "new_uts cfg core_id raws i (Suc k) m =
     (let ut = new_microthread cfg core_id (int i) ((raws i)\<lparr>mmu := m\<rparr>);
          (uts, m') = new_uts cfg core_id raws (Suc i) k (mmu ut)
      in (ut # uts, m'))"

text \<open>
  The constructor of a core (lines 11 to 19): \<^verbatim>\<open>reset\<close> on the fresh object, after
  \<^verbatim>\<open>id\<close> and \<^verbatim>\<open>utidx\<close> are initialised, then the \<^verbatim>\<open>MAX_UTS\<close> microthreads. A record
  cannot hold records of its own type, so the array \<^verbatim>\<open>uts\<close> is the second component of
  the result; the first is the core, with the shared unit as the last microthread
  constructor left it.
\<close>

definition new_processor ::
  "config \<Rightarrow> 32 word \<Rightarrow> processor_t \<Rightarrow> (nat \<Rightarrow> processor_t)
     \<Rightarrow> processor_t \<times> processor_t list" where
  "new_processor cfg core_id raw raws =
     (let s1 = reset cfg (raw\<lparr>id := core_id, utidx := 0\<rparr>);
          (uts, m) = new_uts cfg core_id raws 0 (nat (MAX_UTS cfg)) (mmu s1)
      in (s1\<lparr>mmu := m\<rparr>, uts))"

subsection \<open>Assumptions on the header constants, and sample values\<close>

text \<open>
  \<open>sr_layout_ok\<close> says that the masks of the status register name fields on disjoint
  bits, none of them among the bits that read as zero, and that the three masks tested
  by trap delivery are not empty. It is the hypothesis of the theorems that depend on
  the position of the bits.
\<close>

fun disjoint_masks :: "32 word list \<Rightarrow> bool" where
  "disjoint_masks [] = True"
| "disjoint_masks (m # ms) = (list_all (\<lambda>x. m AND x = 0) ms \<and> disjoint_masks ms)"

definition sr_layout_ok :: "config \<Rightarrow> bool" where
  "sr_layout_ok cfg \<longleftrightarrow>
     SR_ET cfg \<noteq> 0 \<and> SR_S cfg \<noteq> 0 \<and> SR_PS cfg \<noteq> 0 \<and>
     disjoint_masks [SR_ET cfg, SR_EF cfg, SR_EV cfg, SR_EC cfg, SR_PS cfg, SR_S cfg,
                     SR_UX cfg, SR_SX cfg, SR_IM cfg, SR_VM cfg, SR_ZERO cfg]"

text \<open>
  A configuration and a state on which the definitions are evaluated: a build without
  any of the four extensions, eight interrupt lines above bit 8, 2048 microthreads. The
  state is in user mode with traps enabled, every line unmasked and line 5 pending.
\<close>

definition sample_config :: config where
  "sample_config =
     \<lparr>SR_ZERO = 0xFFFE0000, SR_SX = 0x80, SR_UX = 0x40, SR_EF = 0x02, SR_EC = 0x08,
      SR_EV = 0x04, SR_VM = 0x10000, SR_S = 0x20, SR_PS = 0x10, SR_ET = 0x01,
      SR_IM = 0xFF00, SR_IM_SHIFT = 8, FSR_ZERO = 0xFFFFFC00, MAX_UTS = 2048,
      trap_irq0 = 16, TIMER_IRQ = 7, IPI_IRQ = 5,
      RISCV_ENABLE_64BIT = False, RISCV_ENABLE_FPU = False,
      RISCV_ENABLE_RVC = False, RISCV_ENABLE_VEC = False\<rparr>"

definition sample_state :: processor_t where
  "sample_state =
     \<lparr>mmu = \<lparr>vm_enabled = True, supervisor = False, tlb_flushes = 0, mmu_badvaddr = 0xBAD0\<rparr>,
      id = 0, run = True, sr = 0xFF01, fsr = 0, xprlen = 32,
      evec = 0x2000, pc = 0x3000, epc = 0, badvaddr = 0, cause = 0, pcr_k0 = 0, pcr_k1 = 0,
      count = 4, compare = 5, cycle = 100, interrupts_pending = 0x20,
      XPR = (\<lambda>r. of_nat r), FPR = (\<lambda>r. 1),
      vecbanks = 0xff, vecbanks_count = 8, utidx = - 1, vlmax = 32, vl = 32,
      nxfpr_bank = 256, nxpr_use = 32, nfpr_use = 32\<rparr>"

text \<open>The sample state with no interrupt line pending.\<close>

definition quiet_state :: processor_t where
  "quiet_state = sample_state\<lparr>interrupts_pending := 0\<rparr>"

text \<open>
  The sample state with traps disabled and no line pending, and the states of two runs of
  the timer from it: with \<open>compare = 5\<close> and the counter at 4, after a call that counts
  2 and after a further call that counts \<open>2^32 - 6\<close>; and with the counter two below
  \<open>compare = 2^32 - 1\<close>, after a call that counts 3.
\<close>

definition masked_state :: processor_t where
  "masked_state = sample_state\<lparr>sr := 0xFF00, interrupts_pending := 0\<rparr>"

definition timer_run1 :: processor_t where
  "timer_run1 = masked_state\<lparr>pc := 0x3008, cycle := 102, count := 6,
                              interrupts_pending := 0x80\<rparr>"

definition timer_run2 :: processor_t where
  "timer_run2 = masked_state\<lparr>pc := 17179881456, cycle := 4294967392, count := 0,
                              interrupts_pending := 0x80\<rparr>"

definition timer_wrap0 :: processor_t where
  "timer_wrap0 = masked_state\<lparr>count := 0xFFFFFFFE, compare := 0xFFFFFFFF\<rparr>"

definition timer_wrap1 :: processor_t where
  "timer_wrap1 = masked_state\<lparr>pc := 0x300C, cycle := 103, count := 1, compare := 0xFFFFFFFF,
                              interrupts_pending := 0x80\<rparr>"

text \<open>
  Three instruction streams: one that only moves on, one that halts, and one whose
  instruction at \<open>0x2000\<close> sets the traps-enabled bit of the sample configuration and
  moves on, while every other instruction faults.
\<close>

definition nop_exec :: insn_exec where
  "nop_exec npc s = (Inr (npc + 4), s)"

definition halt_exec :: insn_exec where
  "halt_exec npc s = (Inl Halt, s)"

definition rearm_exec :: insn_exec where
  "rearm_exec npc s =
     (if npc = 0x2000 then (Inr (npc + 4), s\<lparr>sr := sr s OR 0x01\<rparr>) else (Inl (Trap 2), s))"

subsection \<open>Notions used in the statements\<close>

text \<open>The value that \<^verbatim>\<open>take_trap\<close> hands to \<^verbatim>\<open>set_sr\<close>, as a function of the old one.\<close>

definition trap_sr :: "config \<Rightarrow> 32 word \<Rightarrow> 32 word" where
  "trap_sr cfg w = (((w AND NOT (SR_ET cfg)) OR SR_S cfg) AND NOT (SR_PS cfg))
                  OR (if w AND SR_S cfg \<noteq> 0 then SR_PS cfg else 0)"

text \<open>
  The register length that the mode bits of a status word call for, in the words of the
  specification: 64 if the supervisor bit and the 64-bit-supervisor bit are set, or the
  supervisor bit is clear and the 64-bit-user bit is set; 32 otherwise.
\<close>

definition xprlen_consistent :: "config \<Rightarrow> processor_t \<Rightarrow> bool" where
  "xprlen_consistent cfg s \<longleftrightarrow>
     xprlen s = (if (sr s AND SR_S cfg \<noteq> 0 \<and> sr s AND SR_SX cfg \<noteq> 0)
                    \<or> (sr s AND SR_S cfg = 0 \<and> sr s AND SR_UX cfg \<noteq> 0)
                 then 64 else 32)"



text \<open>
  The pending lines that the status word does not mask: \<open>pending AND\<close> the mask bits
  extracted from the status word.
\<close>

definition unmasked_pending :: "config \<Rightarrow> processor_t \<Rightarrow> 32 word" where
  "unmasked_pending cfg s =
     interrupts_pending s AND drop_bit (SR_IM_SHIFT cfg) (sr s AND SR_IM cfg)"

text \<open>
  A call of \<^verbatim>\<open>step\<close> asserts the timer line when it reaches line 201: the processor
  runs, the loop is left by a \<^verbatim>\<open>break\<close> and the test of line 200 succeeds on the
  state and the count \<^verbatim>\<open>i\<close> with which the loop was left.
\<close>

definition step_asserts_timer ::
  "config \<Rightarrow> insn_exec \<Rightarrow> nat \<Rightarrow> bool \<Rightarrow> processor_t \<Rightarrow> bool" where
  "step_asserts_timer cfg ex n noisy s \<longleftrightarrow>
     run s \<and>
     (case step_loop cfg ex noisy n 0 s [] of
        Some (Break i s1 tr) \<Rightarrow>
          count s1 < compare s1
          \<and> ucast (compare s1) \<le> (ucast (count s1) + of_nat i :: 64 word)
      | _ \<Rightarrow> False)"

text \<open>\<open>exit_ok P r\<close>: the state with which the loop was left, if any, satisfies \<open>P\<close>.\<close>

definition exit_ok :: "(processor_t \<Rightarrow> bool) \<Rightarrow> loop_exit \<Rightarrow> bool" where
  "exit_ok P r = (case r of Break i s tr \<Rightarrow> P s | Halt_return s tr \<Rightarrow> P s
                  | Assert_failed tr \<Rightarrow> True)"

text \<open>The traps delivered during a call, and how many of them were interrupts.\<close>

fun exit_trace :: "loop_exit \<Rightarrow> trap_origin list" where
  "exit_trace (Break i s tr) = tr"
| "exit_trace (Halt_return s tr) = tr"
| "exit_trace (Assert_failed tr) = tr"

fun is_interrupt_trap :: "trap_origin \<Rightarrow> bool" where
  "is_interrupt_trap (From_interrupt t) = True"
| "is_interrupt_trap (From_insn t) = False"

definition irq_traps :: "trap_origin list \<Rightarrow> nat" where
  "irq_traps tr = length (filter is_interrupt_trap tr)"

text \<open>
  The state after power-on as \<^verbatim>\<open>reset\<close> leaves it: not running, the program counter
  at 0 and the boot address \<open>0x2000\<close> in the trap vector base, supervisor mode with traps
  enabled and virtual memory disabled (in the status word and in the memory-management
  unit), all integer and floating-point registers zero.
\<close>

definition power_on_state :: "config \<Rightarrow> processor_t \<Rightarrow> bool" where
  "power_on_state cfg s \<longleftrightarrow>
     \<not> run s \<and> pc s = 0 \<and> evec s = 0x2000
     \<and> sr s AND SR_S cfg \<noteq> 0 \<and> sr s AND SR_ET cfg \<noteq> 0 \<and> sr s AND SR_VM cfg = 0
     \<and> supervisor (mmu s) \<and> \<not> vm_enabled (mmu s)
     \<and> (\<forall>r. XPR s r = 0) \<and> (\<forall>r. FPR s r = 0)"

section \<open>Properties\<close>

subsection \<open>The stored status word\<close>

lemma bit_sr_masked:
  "bit (sr_masked cfg v) n \<longleftrightarrow>
     bit v n \<and> \<not> bit (SR_ZERO cfg) n
     \<and> (RISCV_ENABLE_64BIT cfg \<or> (\<not> bit (SR_SX cfg) n \<and> \<not> bit (SR_UX cfg) n))
     \<and> (RISCV_ENABLE_FPU cfg \<or> \<not> bit (SR_EF cfg) n)
     \<and> (RISCV_ENABLE_RVC cfg \<or> \<not> bit (SR_EC cfg) n)
     \<and> (RISCV_ENABLE_VEC cfg \<or> \<not> bit (SR_EV cfg) n)"
  by (auto simp: sr_masked_def Let_def bit_simps dest: bit_imp_le_length)

lemma disjointD: "m AND z = 0 \<Longrightarrow> bit m n \<Longrightarrow> \<not> bit (z :: 32 word) n"
  by (metis bit_and_iff bit_0_eq bot_apply bot_bool_def)

lemma keep_bits:
  assumes "m AND SR_ZERO cfg = 0" "m AND SR_SX cfg = 0" "m AND SR_UX cfg = 0"
    "m AND SR_EF cfg = 0" "m AND SR_EC cfg = 0" "m AND SR_EV cfg = 0"
  shows "sr_masked cfg v AND m = v AND m"
proof (rule bit_eqI)
  fix n
  show "bit (sr_masked cfg v AND m) n = bit (v AND m) n"
    using assms[THEN disjointD, of n]
    by (auto simp: bit_and_iff bit_sr_masked)
qed

lemma sr_set_sr: "sr (set_sr cfg w s) = sr_masked cfg w"
  by (simp add: set_sr_def Let_def)

lemma sample_layout_ok: "sr_layout_ok sample_config"
  by (simp add: sr_layout_ok_def sample_config_def)

lemma layout_facts:
  assumes "sr_layout_ok cfg"
  shows "SR_S cfg AND SR_ZERO cfg = 0" "SR_S cfg AND SR_SX cfg = 0" "SR_S cfg AND SR_UX cfg = 0"
    "SR_S cfg AND SR_EF cfg = 0" "SR_S cfg AND SR_EC cfg = 0" "SR_S cfg AND SR_EV cfg = 0"
    "SR_PS cfg AND SR_ZERO cfg = 0" "SR_PS cfg AND SR_SX cfg = 0" "SR_PS cfg AND SR_UX cfg = 0"
    "SR_PS cfg AND SR_EF cfg = 0" "SR_PS cfg AND SR_EC cfg = 0" "SR_PS cfg AND SR_EV cfg = 0"
    "SR_ET cfg AND SR_ZERO cfg = 0" "SR_ET cfg AND SR_SX cfg = 0" "SR_ET cfg AND SR_UX cfg = 0"
    "SR_ET cfg AND SR_EF cfg = 0" "SR_ET cfg AND SR_EC cfg = 0" "SR_ET cfg AND SR_EV cfg = 0"
    "SR_VM cfg AND SR_ZERO cfg = 0" "SR_VM cfg AND SR_SX cfg = 0" "SR_VM cfg AND SR_UX cfg = 0"
    "SR_VM cfg AND SR_EF cfg = 0" "SR_VM cfg AND SR_EC cfg = 0" "SR_VM cfg AND SR_EV cfg = 0"
    "SR_ET cfg AND SR_S cfg = 0" "SR_ET cfg AND SR_PS cfg = 0" "SR_PS cfg AND SR_S cfg = 0"
    "SR_VM cfg AND SR_S cfg = 0" "SR_VM cfg AND SR_ET cfg = 0" "SR_VM cfg AND SR_IM cfg = 0"
    "SR_ET cfg \<noteq> 0" "SR_S cfg \<noteq> 0" "SR_PS cfg \<noteq> 0"
  using assms by (simp_all add: sr_layout_ok_def and.commute)

lemma sr_masked_S: "sr_layout_ok cfg \<Longrightarrow> sr_masked cfg v AND SR_S cfg = v AND SR_S cfg"
  by (rule keep_bits) (simp_all add: layout_facts)

lemma sr_masked_PS: "sr_layout_ok cfg \<Longrightarrow> sr_masked cfg v AND SR_PS cfg = v AND SR_PS cfg"
  by (rule keep_bits) (simp_all add: layout_facts)

lemma sr_masked_ET: "sr_layout_ok cfg \<Longrightarrow> sr_masked cfg v AND SR_ET cfg = v AND SR_ET cfg"
  by (rule keep_bits) (simp_all add: layout_facts)

lemma sr_masked_VM: "sr_layout_ok cfg \<Longrightarrow> sr_masked cfg v AND SR_VM cfg = v AND SR_VM cfg"
  by (rule keep_bits) (simp_all add: layout_facts)

lemma trap_sr_S:
  assumes "sr_layout_ok cfg" shows "trap_sr cfg w AND SR_S cfg = SR_S cfg"
proof (rule bit_eqI)
  fix n
  show "bit (trap_sr cfg w AND SR_S cfg) n = bit (SR_S cfg) n"
    using layout_facts(27)[OF assms, THEN disjointD, of n]
    by (auto simp: trap_sr_def bit_simps dest: bit_imp_le_length)
qed

lemma trap_sr_ET:
  assumes "sr_layout_ok cfg" shows "trap_sr cfg w AND SR_ET cfg = 0"
proof (rule bit_eqI)
  fix n
  show "bit (trap_sr cfg w AND SR_ET cfg) n = bit (0 :: 32 word) n"
    using layout_facts(25,26)[OF assms, THEN disjointD, of n]
    by (auto simp: trap_sr_def bit_simps dest: bit_imp_le_length)
qed

lemma trap_sr_PS:
  assumes "sr_layout_ok cfg"
  shows "trap_sr cfg w AND SR_PS cfg = (if w AND SR_S cfg \<noteq> 0 then SR_PS cfg else 0)"
proof (rule bit_eqI)
  fix n
  show "bit (trap_sr cfg w AND SR_PS cfg) n = bit (if w AND SR_S cfg \<noteq> 0 then SR_PS cfg else 0) n"
    by (auto simp: trap_sr_def bit_simps dest: bit_imp_le_length)
qed

lemma take_trap_fields:
  "sr (take_trap cfg t s) = sr_masked cfg (trap_sr cfg (sr s))"
  "cause (take_trap cfg t s) = of_nat t"
  "epc (take_trap cfg t s) = pc s"
  "pc (take_trap cfg t s) = evec s"
  "badvaddr (take_trap cfg t s) = mmu_badvaddr (mmu s)"
  "interrupts_pending (take_trap cfg t s) = interrupts_pending s"
  by (simp_all add: take_trap_def set_sr_def Let_def trap_sr_def)

subsection \<open>Trap delivery\<close>

text \<open>
  C1. After \<^verbatim>\<open>take_trap\<close> with the trap \<open>t\<close>, whatever the state before: the status
  word has the supervisor bit set and the traps-enabled bit clear, its previous-supervisor
  bit is set exactly when the supervisor bit was set before, \<open>cause\<close> is the code of
  \<open>t\<close>, \<open>epc\<close> is the program counter of the moment of delivery, \<open>pc\<close> is the trap
  vector base and \<open>badvaddr\<close> is the address that the memory-management unit reports.
  The masks are assumed to lie on disjoint bits.
\<close>

theorem take_trap_effect:
  assumes "sr_layout_ok cfg"
  shows "sr (take_trap cfg t s) AND SR_S cfg \<noteq> 0
       \<and> sr (take_trap cfg t s) AND SR_ET cfg = 0
       \<and> (sr (take_trap cfg t s) AND SR_PS cfg \<noteq> 0) = (sr s AND SR_S cfg \<noteq> 0)
       \<and> cause (take_trap cfg t s) = of_nat t
       \<and> epc (take_trap cfg t s) = pc s
       \<and> pc (take_trap cfg t s) = evec s
       \<and> badvaddr (take_trap cfg t s) = mmu_badvaddr (mmu s)"
  using assms
  by (simp add: take_trap_fields sr_masked_S sr_masked_PS sr_masked_ET
      trap_sr_S trap_sr_ET trap_sr_PS layout_facts)

theorem take_trap_effect_witness:
  "sr_layout_ok sample_config
   \<and> sr (take_trap sample_config 21 sample_state) AND SR_S sample_config \<noteq> 0
   \<and> sr (take_trap sample_config 21 sample_state) AND SR_ET sample_config = 0
   \<and> sr (take_trap sample_config 21 sample_state) = 0xFF20
   \<and> cause (take_trap sample_config 21 sample_state) = 21
   \<and> epc (take_trap sample_config 21 sample_state) = 0x3000
   \<and> pc (take_trap sample_config 21 sample_state) = 0x2000
   \<and> badvaddr (take_trap sample_config 21 sample_state) = 0xBAD0"
proof -
  note w = take_trap_effect[OF sample_layout_ok, of 21 sample_state]
  have v: "sr (take_trap sample_config 21 sample_state) = 0xFF20"
    "pc sample_state = 0x3000" "evec sample_state = 0x2000"
    "mmu_badvaddr (mmu sample_state) = 0xBAD0"
    by (simp_all add: take_trap_def set_sr_def sr_masked_def Let_def sample_config_def
        sample_state_def)
  from w v(2-4) have "cause (take_trap sample_config 21 sample_state) = 21
    \<and> epc (take_trap sample_config 21 sample_state) = 0x3000
    \<and> pc (take_trap sample_config 21 sample_state) = 0x2000
    \<and> badvaddr (take_trap sample_config 21 sample_state) = 0xBAD0"
    by simp
  with w v(1) sample_layout_ok show ?thesis by simp
qed

subsection \<open>Writes of the status word\<close>

text \<open>
  C3. For every value \<open>w\<close> written with \<^verbatim>\<open>set_sr\<close>, the stored status word has all
  reserved-zero bits clear, and for each extension that the build does not support
  (64-bit, floating point, compressed instructions, vector) its bits are zero in the
  stored word, whatever \<open>w\<close> is.
\<close>

theorem set_sr_unsupported_bits_zero:
  "sr (set_sr cfg w s) AND SR_ZERO cfg = 0
   \<and> (\<not> RISCV_ENABLE_64BIT cfg \<longrightarrow>
        sr (set_sr cfg w s) AND SR_SX cfg = 0 \<and> sr (set_sr cfg w s) AND SR_UX cfg = 0)
   \<and> (\<not> RISCV_ENABLE_FPU cfg \<longrightarrow> sr (set_sr cfg w s) AND SR_EF cfg = 0)
   \<and> (\<not> RISCV_ENABLE_RVC cfg \<longrightarrow> sr (set_sr cfg w s) AND SR_EC cfg = 0)
   \<and> (\<not> RISCV_ENABLE_VEC cfg \<longrightarrow> sr (set_sr cfg w s) AND SR_EV cfg = 0)"
  by (auto simp: sr_set_sr bit_eq_iff bit_and_iff bit_sr_masked)

theorem set_sr_unsupported_bits_zero_witness:
  "\<not> RISCV_ENABLE_64BIT sample_config \<and> \<not> RISCV_ENABLE_FPU sample_config
   \<and> \<not> RISCV_ENABLE_RVC sample_config \<and> \<not> RISCV_ENABLE_VEC sample_config
   \<and> sr (set_sr sample_config 0xFFFFFFFF sample_state) = 0x1FF31
   \<and> sr (set_sr sample_config 0xFFFFFFFF sample_state) AND SR_ZERO sample_config = 0
   \<and> sr (set_sr sample_config 0xFFFFFFFF sample_state) AND SR_SX sample_config = 0
   \<and> sr (set_sr sample_config 0xFFFFFFFF sample_state) AND SR_UX sample_config = 0
   \<and> sr (set_sr sample_config 0xFFFFFFFF sample_state) AND SR_EF sample_config = 0
   \<and> sr (set_sr sample_config 0xFFFFFFFF sample_state) AND SR_EC sample_config = 0
   \<and> sr (set_sr sample_config 0xFFFFFFFF sample_state) AND SR_EV sample_config = 0"
proof -
  have off: "\<not> RISCV_ENABLE_64BIT sample_config" "\<not> RISCV_ENABLE_FPU sample_config"
    "\<not> RISCV_ENABLE_RVC sample_config" "\<not> RISCV_ENABLE_VEC sample_config"
    by (simp_all add: sample_config_def)
  have v: "sr (set_sr sample_config 0xFFFFFFFF sample_state) = 0x1FF31"
    by (simp add: set_sr_def sr_masked_def Let_def sample_config_def)
  from off set_sr_unsupported_bits_zero[of sample_config "0xFFFFFFFF" sample_state]
  have "sr (set_sr sample_config 0xFFFFFFFF sample_state) AND SR_ZERO sample_config = 0
   \<and> sr (set_sr sample_config 0xFFFFFFFF sample_state) AND SR_SX sample_config = 0
   \<and> sr (set_sr sample_config 0xFFFFFFFF sample_state) AND SR_UX sample_config = 0
   \<and> sr (set_sr sample_config 0xFFFFFFFF sample_state) AND SR_EF sample_config = 0
   \<and> sr (set_sr sample_config 0xFFFFFFFF sample_state) AND SR_EC sample_config = 0
   \<and> sr (set_sr sample_config 0xFFFFFFFF sample_state) AND SR_EV sample_config = 0"
    by blast
  with off v show ?thesis by blast
qed

subsection \<open>Vector length\<close>

lemma int32_eval:
  "int32 (numeral n) = (numeral n + 2147483648) mod 4294967296 - 2147483648"
  "int32 (- numeral n) = (- numeral n + 2147483648) mod 4294967296 - 2147483648"
  "int32 0 = 0" "int32 1 = 1"
  by (simp_all add: int32_def)


lemma vcfg_fields:
  "vlmax (vcfg cfg s) \<le> MAX_UTS cfg" "vl (vcfg cfg s) = vl s"
  "sr (vcfg cfg s) = sr s" "xprlen (vcfg cfg s) = xprlen s"
  by (simp_all add: vcfg_def Let_def)

lemma setvl_fields:
  "vl (setvl x s) = min (vlmax s) x" "vlmax (setvl x s) = vlmax s"
  "sr (setvl x s) = sr s" "xprlen (setvl x s) = xprlen s"
  by (simp_all add: setvl_def)

text \<open>
  C7, amended. \<^verbatim>\<open>setvl\<close> with any argument leaves \<open>vl \<le> vlmax\<close> and does not touch
  \<open>vlmax\<close>; \<^verbatim>\<open>vcfg\<close> leaves \<open>vlmax\<close> at most \<open>MAX_UTS\<close> and does not touch \<open>vl\<close>; so
  after \<^verbatim>\<open>vcfg\<close> followed by \<^verbatim>\<open>setvl\<close> both bounds hold. That \<^verbatim>\<open>vcfg\<close> alone keeps
  \<open>vl \<le> vlmax\<close> is not part of the statement.
\<close>

theorem vector_length_bounds:
  "vl (setvl x s) \<le> vlmax (setvl x s)
   \<and> vlmax (setvl x s) = vlmax s
   \<and> vlmax (vcfg cfg s) \<le> MAX_UTS cfg
   \<and> vl (vcfg cfg s) = vl s
   \<and> vl (setvl x (vcfg cfg s)) \<le> vlmax (setvl x (vcfg cfg s))
   \<and> vlmax (setvl x (vcfg cfg s)) \<le> MAX_UTS cfg"
  by (simp add: vcfg_fields setvl_fields)

text \<open>
  As C7 is written it fails for \<^verbatim>\<open>vcfg\<close>: from a state with \<open>vl = vlmax = 32\<close> in
  which the demand has been raised to 256 registers, \<^verbatim>\<open>vcfg\<close> lowers \<open>vlmax\<close> to 8 and
  leaves \<open>vl\<close> at 32.
\<close>

theorem vcfg_breaks_vl_bound:
  "vl (sample_state\<lparr>nxpr_use := 128, nfpr_use := 128\<rparr>)
     \<le> vlmax (sample_state\<lparr>nxpr_use := 128, nfpr_use := 128\<rparr>)
   \<and> vlmax (vcfg sample_config (sample_state\<lparr>nxpr_use := 128, nfpr_use := 128\<rparr>)) = 8
   \<and> vl (vcfg sample_config (sample_state\<lparr>nxpr_use := 128, nfpr_use := 128\<rparr>)) = 32
   \<and> \<not> vl (vcfg sample_config (sample_state\<lparr>nxpr_use := 128, nfpr_use := 128\<rparr>))
        \<le> vlmax (vcfg sample_config (sample_state\<lparr>nxpr_use := 128, nfpr_use := 128\<rparr>))"
  by (simp add: vcfg_def int32_eval Let_def sample_state_def sample_config_def)









subsection \<open>The interrupt check\<close>

lemma and_1_bit0: "(w AND 1 \<noteq> 0) = bit (w :: 32 word) 0"
  by (simp add: and_one_eq bit_0 mod_2_eq_odd)

lemma irq_scan_least:
  "bit w k \<Longrightarrow> (\<forall>j<k. \<not> bit w j) \<Longrightarrow> irq_scan w i = Some (i + k)"
proof (induction k arbitrary: w i)
  case 0
  then show ?case by (subst irq_scan.simps) (simp add: and_1_bit0)
next
  case (Suc k)
  have nb: "\<not> bit w 0" using Suc.prems(2) by simp
  have "bit (drop_bit 1 w) k" using Suc.prems(1) by (simp add: bit_drop_bit_eq)
  moreover have "\<forall>j<k. \<not> bit (drop_bit 1 w) j"
    using Suc.prems(2) by (simp add: bit_drop_bit_eq)
  ultimately have "irq_scan (drop_bit 1 w) (i + 1) = Some (i + 1 + k)"
    by (rule Suc.IH)
  with nb show ?case by (subst irq_scan.simps) (simp add: and_1_bit0)
qed

lemma nonzero_least_bit:
  assumes "(w :: 32 word) \<noteq> 0"
  shows "\<exists>k. bit w k \<and> (\<forall>j<k. \<not> bit w j)"
proof -
  from assms obtain n where "bit w n" by (auto simp: bit_eq_iff)
  then have "bit w (LEAST k. bit w k)" "\<forall>j<(LEAST k. bit w k). \<not> bit w j"
    by (auto intro: LeastI dest: not_less_Least)
  then show ?thesis by blast
qed

text \<open>
  C2. \<^verbatim>\<open>take_interrupt\<close> throws a trap if and only if the unmasked pending lines are
  not all zero and the traps-enabled bit is set. The trap it throws is \<open>trap_irq0\<close> plus
  the index of the lowest line that is set; in every other state it returns without a
  signal. It never changes the state: it has none to return.
\<close>

theorem take_interrupt_priority:
  "(unmasked_pending cfg s \<noteq> 0 \<and> sr s AND SR_ET cfg \<noteq> 0 \<longrightarrow>
      (\<exists>k. take_interrupt cfg s = Some (Some (trap_irq0 cfg + k))
           \<and> bit (unmasked_pending cfg s) k
           \<and> (\<forall>j<k. \<not> bit (unmasked_pending cfg s) j)))
   \<and> (\<not> (unmasked_pending cfg s \<noteq> 0 \<and> sr s AND SR_ET cfg \<noteq> 0) \<longrightarrow>
      take_interrupt cfg s = Some None)"
proof (intro conjI impI)
  assume a: "unmasked_pending cfg s \<noteq> 0 \<and> sr s AND SR_ET cfg \<noteq> 0"
  then obtain k where k: "bit (unmasked_pending cfg s) k"
    "\<forall>j<k. \<not> bit (unmasked_pending cfg s) j"
    using nonzero_least_bit by blast
  then have "irq_scan (unmasked_pending cfg s) 0 = Some k"
    using irq_scan_least[of "unmasked_pending cfg s" k 0] by simp
  with a have "take_interrupt cfg s = Some (Some (trap_irq0 cfg + k))"
    by (simp add: take_interrupt_def unmasked_pending_def Let_def)
  with k show "\<exists>k. take_interrupt cfg s = Some (Some (trap_irq0 cfg + k))
           \<and> bit (unmasked_pending cfg s) k
           \<and> (\<forall>j<k. \<not> bit (unmasked_pending cfg s) j)" by blast
next
  assume "\<not> (unmasked_pending cfg s \<noteq> 0 \<and> sr s AND SR_ET cfg \<noteq> 0)"
  then show "take_interrupt cfg s = Some None"
    by (auto simp: take_interrupt_def unmasked_pending_def Let_def)
qed

theorem take_interrupt_priority_witness:
  "unmasked_pending sample_config sample_state \<noteq> 0
   \<and> sr sample_state AND SR_ET sample_config \<noteq> 0
   \<and> (\<exists>k. take_interrupt sample_config sample_state = Some (Some (trap_irq0 sample_config + k))
           \<and> bit (unmasked_pending sample_config sample_state) k
           \<and> (\<forall>j<k. \<not> bit (unmasked_pending sample_config sample_state) j))
   \<and> take_interrupt sample_config sample_state = Some (Some 21)
   \<and> \<not> (unmasked_pending sample_config (sample_state\<lparr>sr := 0xFF00\<rparr>) \<noteq> 0
          \<and> sr (sample_state\<lparr>sr := 0xFF00\<rparr>) AND SR_ET sample_config \<noteq> 0)
   \<and> take_interrupt sample_config (sample_state\<lparr>sr := 0xFF00\<rparr>) = Some None"
proof -
  have h1: "unmasked_pending sample_config sample_state \<noteq> 0
      \<and> sr sample_state AND SR_ET sample_config \<noteq> 0"
    by (simp add: unmasked_pending_def sample_config_def sample_state_def)
  have h2: "\<not> (unmasked_pending sample_config (sample_state\<lparr>sr := 0xFF00\<rparr>) \<noteq> 0
          \<and> sr (sample_state\<lparr>sr := 0xFF00\<rparr>) AND SR_ET sample_config \<noteq> 0)"
    by (simp add: unmasked_pending_def sample_config_def sample_state_def)
  have v: "take_interrupt sample_config sample_state = Some (Some 21)"
    by (simp add: take_interrupt_def Let_def sample_config_def sample_state_def irq_scan.simps)
  from h1 h2 v take_interrupt_priority[of sample_config sample_state]
    take_interrupt_priority[of sample_config "sample_state\<lparr>sr := 0xFF00\<rparr>"]
  show ?thesis by blast
qed

subsection \<open>The instruction loops\<close>

declare insn_loop.simps [simp del] insn_loop4.simps [simp del]

lemma execute_insn_cases:
  obtains (raise) sig s' where "ex npc s = (Inl sig, s')" "execute_insn ex npc s = Inl (sig, s')"
  | (next_pc) npc' s' where "ex npc s = (Inr npc', s')"
      "execute_insn ex npc s = Inr (npc', s'\<lparr>pc := npc'\<rparr>)"
  by (cases "ex npc s"; cases "fst (ex npc s)") (auto simp: execute_insn_def)

lemma execute_insn_inv:
  assumes "\<And>npc s. P s \<Longrightarrow> P (snd (ex npc s))" "\<And>s v. P s \<Longrightarrow> P (s\<lparr>pc := v\<rparr>)" "P s"
  shows "case execute_insn ex npc s of Inl (sig, s') \<Rightarrow> P s' | Inr (npc', s') \<Rightarrow> P s'"
  using assms(1)[OF assms(3), of npc] assms(2)
  by (cases rule: execute_insn_cases[of ex npc s]) auto

lemma insn_loop_done: "n \<le> i \<Longrightarrow> insn_loop ex n i npc s = Inr (i, npc, s)"
  by (subst insn_loop.simps) simp

lemma insn_loop4_done: "n \<le> i \<Longrightarrow> insn_loop4 ex n i npc s = Inr (i, npc, s)"
  by (subst insn_loop4.simps) auto

lemma run_insns_done: "n \<le> i \<Longrightarrow> run_insns ex noisy n i npc s = Inr (i, npc, s)"
  by (simp add: run_insns_def insn_loop_done insn_loop4_done)

lemma insn_loop_props:
  "(\<And>npc s. P s \<Longrightarrow> P (snd (ex npc s))) \<Longrightarrow> (\<And>s v. P s \<Longrightarrow> P (s\<lparr>pc := v\<rparr>)) \<Longrightarrow> P s
   \<Longrightarrow> (case insn_loop ex n i npc s of Inl (sig, i', s') \<Rightarrow> i \<le> i' \<and> i' < n \<and> P s'
                                 | Inr (i', npc', s') \<Rightarrow> i \<le> i' \<and> P s')"
proof (induction ex n i npc s rule: insn_loop.induct)
  case (1 ex n i npc s)
  show ?case
  proof (cases "i < n")
    case False
    with "1.prems" show ?thesis by (subst insn_loop.simps) simp
  next
    case True
    have e: "case execute_insn ex npc s of Inl (sig, s') \<Rightarrow> P s' | Inr (npc', s') \<Rightarrow> P s'"
      by (rule execute_insn_inv) (auto intro: "1.prems")
    show ?thesis
    proof (cases "execute_insn ex npc s")
      case (Inl a)
      with True e show ?thesis by (subst insn_loop.simps) (simp split: prod.splits)
    next
      case (Inr b)
      obtain npc' s' where b: "b = (npc', s')" by (cases b)
      from e Inr b have "P s'" by simp
      then have "case insn_loop ex n (i + 1) npc' s' of
                Inl (sig, i', s') \<Rightarrow> i + 1 \<le> i' \<and> i' < n \<and> P s'
              | Inr (i', npc', s') \<Rightarrow> i + 1 \<le> i' \<and> P s'"
        by (intro "1.IH"[OF True Inr b[symmetric]]) (auto intro: "1.prems"(1,2))
      with Inr b True show ?thesis
        by (subst insn_loop.simps) (auto split: sum.splits prod.splits)
    qed
  qed
qed

lemma insn_loop4_props:
  "(\<And>npc s. P s \<Longrightarrow> P (snd (ex npc s))) \<Longrightarrow> (\<And>s v. P s \<Longrightarrow> P (s\<lparr>pc := v\<rparr>)) \<Longrightarrow> P s
   \<Longrightarrow> (case insn_loop4 ex n i npc s of Inl (sig, i', s') \<Rightarrow> i \<le> i' \<and> i' < n \<and> P s'
                                 | Inr (i', npc', s') \<Rightarrow> i \<le> i' \<and> P s')"
proof (induction ex n i npc s rule: insn_loop4.induct)
  case (1 ex n i npc s)
  have e: "\<And>s npc. P s \<Longrightarrow> (case execute_insn ex npc s of Inl (sig, s') \<Rightarrow> P s'
                                  | Inr (npc', s') \<Rightarrow> P s')"
    by (rule execute_insn_inv) (auto intro: "1.prems"(1,2))
  show ?case
  proof (cases "n > 3 \<and> i < n - 3")
    case False
    with "1.prems" show ?thesis by (subst insn_loop4.simps) auto
  next
    case True
    show ?thesis
    proof (cases "execute_insn ex npc s")
      case (Inl a)
      with True e[OF "1.prems"(3), of npc] show ?thesis
        by (subst insn_loop4.simps) (auto split: prod.splits)
    next
      case r1: (Inr b1)
      obtain npc1 s1 where b1: "b1 = (npc1, s1)" by (cases b1)
      from e[OF "1.prems"(3), of npc] r1 b1 have p1: "P s1" by simp
      show ?thesis
      proof (cases "execute_insn ex npc1 s1")
        case (Inl a)
        with True r1 b1 e[OF p1, of npc1] show ?thesis
          by (subst insn_loop4.simps) (auto split: prod.splits)
      next
        case r2: (Inr b2)
        obtain npc2 s2 where b2: "b2 = (npc2, s2)" by (cases b2)
        from e[OF p1, of npc1] r2 b2 have p2: "P s2" by simp
        show ?thesis
        proof (cases "execute_insn ex npc2 s2")
          case (Inl a)
          with True r1 b1 r2 b2 e[OF p2, of npc2] show ?thesis
            by (subst insn_loop4.simps) (auto split: prod.splits)
        next
          case r3: (Inr b3)
          obtain npc3 s3 where b3: "b3 = (npc3, s3)" by (cases b3)
          from e[OF p2, of npc2] r3 b3 have p3: "P s3" by simp
          show ?thesis
          proof (cases "execute_insn ex npc3 s3")
            case (Inl a)
            with True r1 b1 r2 b2 r3 b3 e[OF p3, of npc3] show ?thesis
              by (subst insn_loop4.simps) (auto split: prod.splits)
          next
            case r4: (Inr b4)
            obtain npc4 s4 where b4: "b4 = (npc4, s4)" by (cases b4)
            from e[OF p3, of npc3] r4 b4 have p4: "P s4" by simp
            have ih: "case insn_loop4 ex n (i + 4) npc4 s4 of
                Inl (sig, i', s') \<Rightarrow> i + 4 \<le> i' \<and> i' < n \<and> P s'
              | Inr (i', npc', s') \<Rightarrow> i + 4 \<le> i' \<and> P s'"
              by (rule "1.IH"[OF True r1 b1[symmetric] r2 b2[symmetric] r3 b3[symmetric]
                    r4 b4[symmetric]])
                (auto intro: "1.prems"(1,2) p4)
            have "insn_loop4 ex n i npc s = insn_loop4 ex n (i + 4) npc4 s4"
              using True r1 r2 r3 r4 b1 b2 b3 b4 by (subst insn_loop4.simps) simp
            with ih show ?thesis by (auto split: sum.splits prod.splits)
          qed
        qed
      qed
    qed
  qed
qed

lemma run_insns_props:
  assumes "\<And>npc s. P s \<Longrightarrow> P (snd (ex npc s))" "\<And>s v. P s \<Longrightarrow> P (s\<lparr>pc := v\<rparr>)" "P s"
  shows "case run_insns ex noisy n i npc s of Inl (sig, i', s') \<Rightarrow> i \<le> i' \<and> i' < n \<and> P s'
                                 | Inr (i', npc', s') \<Rightarrow> i \<le> i' \<and> P s'"
proof (cases noisy)
  case True
  have "case insn_loop ex n i npc s of Inl (sig, i', s') \<Rightarrow> i \<le> i' \<and> i' < n \<and> P s'
                                 | Inr (i', npc', s') \<Rightarrow> i \<le> i' \<and> P s'"
    by (rule insn_loop_props) (auto intro: assms)
  with True show ?thesis
    by (simp add: run_insns_def)
next
  case False
  have a: "case insn_loop4 ex n i npc s of Inl (sig, i', s') \<Rightarrow> i \<le> i' \<and> i' < n \<and> P s'
                                 | Inr (i', npc', s') \<Rightarrow> i \<le> i' \<and> P s'"
    by (rule insn_loop4_props) (auto intro: assms)
  show ?thesis
  proof (cases "insn_loop4 ex n i npc s")
    case (Inl r)
    with a False show ?thesis by (simp add: run_insns_def)
  next
    case (Inr r)
    obtain i1 npc1 s1 where r: "r = (i1, npc1, s1)" by (cases r)
    with a Inr have i1: "i \<le> i1" "P s1" by simp_all
    have "case insn_loop ex n i1 npc1 s1 of Inl (sig, i', s') \<Rightarrow> i1 \<le> i' \<and> i' < n \<and> P s'
                                 | Inr (i', npc', s') \<Rightarrow> i1 \<le> i' \<and> P s'"
      by (rule insn_loop_props) (auto intro: assms(1,2) i1(2))
    with i1(1) Inr r False show ?thesis
      by (auto simp: run_insns_def split: sum.splits prod.splits)
  qed
qed

lemma take_interrupt_unfold:
  "take_interrupt cfg s =
     (if unmasked_pending cfg s \<noteq> 0 \<and> sr s AND SR_ET cfg \<noteq> 0
      then map_option (\<lambda>i. Some (trap_irq0 cfg + i)) (irq_scan (unmasked_pending cfg s) 0)
      else Some None)"
  by (simp add: take_interrupt_def unmasked_pending_def Let_def)

lemma take_interrupt_cases:
  obtains (quiet) "take_interrupt cfg s = Some None"
      "\<not> (unmasked_pending cfg s \<noteq> 0 \<and> sr s AND SR_ET cfg \<noteq> 0)"
  | (irq) k where "take_interrupt cfg s = Some (Some (trap_irq0 cfg + k))"
      "unmasked_pending cfg s \<noteq> 0" "sr s AND SR_ET cfg \<noteq> 0"
      "bit (unmasked_pending cfg s) k" "\<forall>j<k. \<not> bit (unmasked_pending cfg s) j"
proof (cases "unmasked_pending cfg s \<noteq> 0 \<and> sr s AND SR_ET cfg \<noteq> 0")
  case False
  then have "take_interrupt cfg s = Some None"
    by (simp add: take_interrupt_unfold)
  then show ?thesis using False by (rule quiet)
next
  case True
  then obtain k where k: "bit (unmasked_pending cfg s) k"
    "\<forall>j<k. \<not> bit (unmasked_pending cfg s) j"
    using nonzero_least_bit by blast
  have "irq_scan (unmasked_pending cfg s) 0 = Some (0 + k)"
    using k by (rule irq_scan_least)
  with True have "take_interrupt cfg s = Some (Some (trap_irq0 cfg + k))"
    by (simp add: take_interrupt_unfold)
  then show ?thesis using True k by (intro irq) simp_all
qed

lemma take_interrupt_no_ET: "sr s AND SR_ET cfg = 0 \<Longrightarrow> take_interrupt cfg s = Some None"
  by (simp add: take_interrupt_def Let_def)

lemma take_trap_ET: "sr_layout_ok cfg \<Longrightarrow> sr (take_trap cfg t s) AND SR_ET cfg = 0"
  by (simp add: take_trap_fields sr_masked_ET trap_sr_ET)

lemma take_interrupt_after_trap:
  "sr_layout_ok cfg \<Longrightarrow> take_interrupt cfg (take_trap cfg t s) = Some None"
  by (simp add: take_interrupt_no_ET take_trap_ET)

subsection \<open>The stepping loop returns\<close>

lemma step_loop_done:
  assumes "sr_layout_ok cfg" "n \<le> i"
  shows "step_loop cfg ex noisy n i s tr =
           (case take_interrupt cfg s of
              None \<Rightarrow> None
            | Some None \<Rightarrow> Some (Break i s tr)
            | Some (Some t) \<Rightarrow>
                Some (Break (i + 1) (take_trap cfg t s) (tr @ [From_interrupt t])))"
proof -
  have again: "step_loop cfg ex noisy n (Suc i) (take_trap cfg t s) tr'
                 = Some (Break (Suc i) (take_trap cfg t s) tr')" for t tr'
    using assms
    by (subst step_loop.simps) (simp add: take_interrupt_after_trap run_insns_done)
  show ?thesis
    using assms(2)
    by (subst step_loop.simps) (simp add: again run_insns_done split: option.splits)
qed

lemma run_insns_index:
  "run_insns ex noisy n i npc s = Inl (sig, i', s') \<Longrightarrow> i \<le> i' \<and> i' < n"
  using run_insns_props[where P = "\<lambda>_. True" and ex = ex and noisy = noisy and n = n
      and i = i and npc = npc and s = s]
  by simp

lemma step_loop_returns:
  assumes "sr_layout_ok cfg"
  shows "\<exists>r. step_loop cfg ex noisy n i s tr = Some r"
proof (induction "n - i" arbitrary: i s tr rule: less_induct)
  case less
  show ?case
  proof (cases "n \<le> i")
    case True
    then show ?thesis
      by (cases rule: take_interrupt_cases[of cfg s]) (simp_all add: step_loop_done[OF assms])
  next
    case False
    show ?thesis
    proof (cases rule: take_interrupt_cases[of cfg s])
      case (irq k)
      have "\<exists>r. step_loop cfg ex noisy n (i + 1) (take_trap cfg (trap_irq0 cfg + k) s)
                  (tr @ [From_interrupt (trap_irq0 cfg + k)]) = Some r"
        using False by (intro less) simp
      with irq(1) show ?thesis by (subst step_loop.simps) simp
    next
      case quiet
      note ti = quiet(1)
      show ?thesis
      proof (cases "run_insns ex noisy n i (pc s) s")
        case (Inr r)
        with ti show ?thesis
          by (subst step_loop.simps) (simp split: prod.splits)
      next
        case (Inl r)
        obtain sig i' s' where r: "r = (sig, i', s')" by (cases r)
        from run_insns_index[OF Inl[unfolded r]] have i': "i \<le> i'" "i' < n" by simp_all
        show ?thesis
        proof (cases sig)
          case (Trap t)
          have "\<exists>r. step_loop cfg ex noisy n (i' + 1) (take_trap cfg t s')
                  (tr @ [From_insn t]) = Some r"
            using i' by (intro less) simp
          with ti Inl r Trap show ?thesis by (subst step_loop.simps) simp
        next
          case (Vt_command cmd)
          with ti Inl r show ?thesis by (subst step_loop.simps) simp
        next
          case Halt
          with ti Inl r show ?thesis by (subst step_loop.simps) simp
        qed
      qed
    qed
  qed
qed

lemma update_timer_fields:
  "sr (update_timer cfg i s) = sr s" "xprlen (update_timer cfg i s) = xprlen s"
  "cause (update_timer cfg i s) = cause s" "epc (update_timer cfg i s) = epc s"
  "pc (update_timer cfg i s) = pc s" "evec (update_timer cfg i s) = evec s"
  "badvaddr (update_timer cfg i s) = badvaddr s" "XPR (update_timer cfg i s) = XPR s"
  "FPR (update_timer cfg i s) = FPR s" "compare (update_timer cfg i s) = compare s"
  "cycle (update_timer cfg i s) = cycle s + of_nat i"
  "count (update_timer cfg i s) = count s + of_nat i"
  by (simp_all add: update_timer_def Let_def)

lemma ucast_32_64_le: "((ucast (a :: 32 word) :: 64 word) \<le> ucast (b :: 32 word)) = (a \<le> b)"
  by (simp add: word_le_def uint_up_ucast is_up)

lemma unat_ucast_32_64: "unat (ucast (a :: 32 word) :: 64 word) = unat a"
proof -
  have "unat a < 2 ^ 32" using unsigned_less[of a] by simp
  then have "unat a < 2 ^ 64" by simp
  then have "take_bit 64 (unat a) = unat a" by (simp only: take_bit_nat_eq_self)
  then show ?thesis by (simp add: unsigned_ucast_eq)
qed


lemma update_timer_0: "update_timer cfg 0 s = s"
  by (auto simp: update_timer_def Let_def ucast_32_64_le)

subsection \<open>A step with no budget\<close>

text \<open>
  C10. On a running processor \<^verbatim>\<open>step\<close> with a budget of zero still makes the interrupt
  check. If an unmasked interrupt is pending and traps are enabled the trap is delivered
  although no instruction executes: the call returns in supervisor mode with traps
  disabled, the previous-supervisor bit saved, \<open>cause\<close> the code of the lowest pending
  line, \<open>epc\<close> the old program counter and \<open>pc\<close> the trap vector base. Otherwise the
  call returns the state it was given: program counter, counters and registers are
  unchanged. No instruction is looked at: the statement holds for every \<open>ex\<close>.
\<close>

theorem step_zero_budget:
  assumes "sr_layout_ok cfg" "run s"
  shows "(unmasked_pending cfg s \<noteq> 0 \<and> sr s AND SR_ET cfg \<noteq> 0 \<longrightarrow>
           (\<exists>k s'. step cfg ex 0 noisy s = Some (Inr s')
               \<and> bit (unmasked_pending cfg s) k \<and> (\<forall>j<k. \<not> bit (unmasked_pending cfg s) j)
               \<and> sr s' AND SR_S cfg \<noteq> 0 \<and> sr s' AND SR_ET cfg = 0
               \<and> (sr s' AND SR_PS cfg \<noteq> 0) = (sr s AND SR_S cfg \<noteq> 0)
               \<and> cause s' = of_nat (trap_irq0 cfg + k)
               \<and> epc s' = pc s \<and> pc s' = evec s))
       \<and> (\<not> (unmasked_pending cfg s \<noteq> 0 \<and> sr s AND SR_ET cfg \<noteq> 0) \<longrightarrow>
           step cfg ex 0 noisy s = Some (Inr s))"
proof (cases rule: take_interrupt_cases[of cfg s])
  case quiet
  then show ?thesis
    using assms by (simp add: step_def step_loop_done update_timer_0)
next
  case (irq k)
  let ?s' = "update_timer cfg 1 (take_trap cfg (trap_irq0 cfg + k) s)"
  have "step cfg ex 0 noisy s = Some (Inr ?s')"
    using assms irq(1) by (simp add: step_def step_loop_done)
  moreover have "sr ?s' AND SR_S cfg \<noteq> 0" "sr ?s' AND SR_ET cfg = 0"
    "(sr ?s' AND SR_PS cfg \<noteq> 0) = (sr s AND SR_S cfg \<noteq> 0)"
    "cause ?s' = of_nat (trap_irq0 cfg + k)" "epc ?s' = pc s" "pc ?s' = evec s"
    using assms(1)
    by (simp_all add: update_timer_fields take_trap_fields sr_masked_S sr_masked_PS
        sr_masked_ET trap_sr_S trap_sr_ET trap_sr_PS layout_facts)
  ultimately show ?thesis using irq by blast
qed


lemma sample_irq: "take_interrupt sample_config sample_state = Some (Some 21)"
  by (simp add: take_interrupt_def Let_def sample_config_def sample_state_def irq_scan.simps)

theorem step_zero_budget_witness:
  "sr_layout_ok sample_config \<and> run sample_state
   \<and> unmasked_pending sample_config sample_state \<noteq> 0
   \<and> sr sample_state AND SR_ET sample_config \<noteq> 0
   \<and> (\<exists>s'. step sample_config nop_exec 0 False sample_state = Some (Inr s')
          \<and> sr s' = 0xFF20 \<and> cause s' = 21 \<and> epc s' = 0x3000 \<and> pc s' = 0x2000)
   \<and> run (sample_state\<lparr>interrupts_pending := 0\<rparr>)
   \<and> \<not> (unmasked_pending sample_config (sample_state\<lparr>interrupts_pending := 0\<rparr>) \<noteq> 0
          \<and> sr (sample_state\<lparr>interrupts_pending := 0\<rparr>) AND SR_ET sample_config \<noteq> 0)
   \<and> step sample_config nop_exec 0 False (sample_state\<lparr>interrupts_pending := 0\<rparr>)
       = Some (Inr (sample_state\<lparr>interrupts_pending := 0\<rparr>))"
proof -
  have r: "run sample_state" "run (sample_state\<lparr>interrupts_pending := 0\<rparr>)"
    by (simp_all add: sample_state_def)
  have h1: "unmasked_pending sample_config sample_state \<noteq> 0
      \<and> sr sample_state AND SR_ET sample_config \<noteq> 0"
    by (simp add: unmasked_pending_def sample_config_def sample_state_def)
  have h2: "\<not> (unmasked_pending sample_config (sample_state\<lparr>interrupts_pending := 0\<rparr>) \<noteq> 0
          \<and> sr (sample_state\<lparr>interrupts_pending := 0\<rparr>) AND SR_ET sample_config \<noteq> 0)"
    by (simp add: unmasked_pending_def sample_config_def sample_state_def)
  note a = step_zero_budget[OF sample_layout_ok r(1), where ex = nop_exec and noisy = False]
  note b = step_zero_budget[OF sample_layout_ok r(2), where ex = nop_exec and noisy = False]
  have v: "step sample_config nop_exec 0 False sample_state
        = Some (Inr (update_timer sample_config 1 (take_trap sample_config 21 sample_state)))"
    using r(1) by (simp add: step_def step_loop_done sample_layout_ok sample_irq)
  have "sr (update_timer sample_config 1 (take_trap sample_config 21 sample_state)) = 0xFF20"
    "cause (update_timer sample_config 1 (take_trap sample_config 21 sample_state)) = 21"
    "epc (update_timer sample_config 1 (take_trap sample_config 21 sample_state)) = 0x3000"
    "pc (update_timer sample_config 1 (take_trap sample_config 21 sample_state)) = 0x2000"
    by (simp_all add: update_timer_fields take_trap_def set_sr_def sr_masked_def Let_def
        sample_config_def sample_state_def)
  with v have "\<exists>s'. step sample_config nop_exec 0 False sample_state = Some (Inr s')
          \<and> sr s' = 0xFF20 \<and> cause s' = 21 \<and> epc s' = 0x3000 \<and> pc s' = 0x2000"
    by simp
  with a b h1 h2 r sample_layout_ok show ?thesis by blast
qed

subsection \<open>Invariants of the stepping loop\<close>

lemma step_loop_inv:
  assumes r: "step_loop cfg ex noisy n i s tr = Some r"
    and ex: "\<And>npc s. P s \<Longrightarrow> P (snd (ex npc s))"
    and pcu: "\<And>s v. P s \<Longrightarrow> P (s\<lparr>pc := v\<rparr>)"
    and tt: "\<And>t s. P s \<Longrightarrow> P (take_trap cfg t s)"
    and rs: "\<And>s. P (reset cfg s)"
    and s: "P s"
  shows "exit_ok P r"
proof -
  let ?Q = "\<lambda>cfg ex (noisy :: bool) (n :: nat) (i :: nat) s (tr :: trap_origin list) r.
        (\<forall>npc s. P s \<longrightarrow> P (snd (ex npc s))) \<longrightarrow> (\<forall>t s. P s \<longrightarrow> P (take_trap cfg t s))
        \<longrightarrow> (\<forall>s. P (reset cfg s)) \<longrightarrow> P s \<longrightarrow> exit_ok P r"
  have "?Q cfg ex noisy n i s tr r"
  proof (rule step_loop.raw_induct[where P = ?Q, OF _ r])
    fix loop cfg ex noisy n i s tr r
    assume IH: "\<And>cfg ex noisy n i s tr r. loop cfg ex noisy n i s tr = Some r
                  \<Longrightarrow> ?Q cfg ex noisy n i s tr r"
      and body: "(case take_interrupt cfg s of
        None \<Rightarrow> None
      | Some None \<Rightarrow>
          (case run_insns ex noisy n i (pc s) s of
             Inl (Trap t, i', s') \<Rightarrow>
               loop cfg ex noisy n (i' + 1) (take_trap cfg t s') (tr @ [From_insn t])
           | Inl (Vt_command cmd, i', s') \<Rightarrow>
               (if cmd = vt_command_stop then Some (Break (i' + 1) s' tr)
                else Some (Assert_failed tr))
           | Inl (Halt, i', s') \<Rightarrow> Some (Halt_return (reset cfg s') tr)
           | Inr (i', npc, s') \<Rightarrow> Some (Break i' s' tr))
      | Some (Some t) \<Rightarrow>
          loop cfg ex noisy n (i + 1) (take_trap cfg t s) (tr @ [From_interrupt t])) = Some r"
    show "?Q cfg ex noisy n i s tr r"
    proof (intro impI)
      assume ex: "\<forall>npc s. P s \<longrightarrow> P (snd (ex npc s))"
        and tt: "\<forall>t s. P s \<longrightarrow> P (take_trap cfg t s)"
        and rs: "\<forall>s. P (reset cfg s)" and s: "P s"
      have run: "case run_insns ex noisy n i (pc s) s of
                   Inl (sig, i', s') \<Rightarrow> i \<le> i' \<and> i' < n \<and> P s'
                 | Inr (i', npc', s') \<Rightarrow> i \<le> i' \<and> P s'"
        using ex s by (intro run_insns_props) (auto intro: pcu)
      from body ex tt rs s run show "exit_ok P r"
        by (auto simp: exit_ok_def split: option.splits sum.splits prod.splits signal.splits
            if_splits dest!: IH)
    qed
  qed
  with ex tt rs s show ?thesis by blast
qed

subsection \<open>Reset\<close>

lemma sr_reset: "sr (reset cfg s) = sr_masked cfg (SR_S cfg OR SR_SX cfg OR SR_ET cfg OR SR_IM cfg)"
  by (simp add: reset_def set_sr_def set_fsr_def Let_def)

lemma reset_fields:
  "run (reset cfg s) = False" "pc (reset cfg s) = 0" "evec (reset cfg s) = 0x2000"
  "XPR (reset cfg s) = (\<lambda>r. 0)" "FPR (reset cfg s) = (\<lambda>r. 0)"
  "supervisor (mmu (reset cfg s)) = (sr (reset cfg s) AND SR_S cfg \<noteq> 0)"
  "vm_enabled (mmu (reset cfg s)) = (sr (reset cfg s) AND SR_VM cfg \<noteq> 0)"
  by (simp_all add: reset_def set_sr_def set_fsr_def Let_def)

lemma reset_sr_bits:
  assumes "sr_layout_ok cfg"
  shows "sr (reset cfg s) AND SR_S cfg = SR_S cfg"
    "sr (reset cfg s) AND SR_ET cfg = SR_ET cfg"
    "sr (reset cfg s) AND SR_VM cfg = 0"
proof -
  let ?v = "SR_S cfg OR SR_SX cfg OR SR_ET cfg OR SR_IM cfg"
  show "sr (reset cfg s) AND SR_S cfg = SR_S cfg"
    by (auto simp: sr_reset sr_masked_S[OF assms] bit_eq_iff bit_simps)
  show "sr (reset cfg s) AND SR_ET cfg = SR_ET cfg"
    by (auto simp: sr_reset sr_masked_ET[OF assms] bit_eq_iff bit_simps)
  have "?v AND SR_VM cfg = 0"
  proof (rule bit_eqI)
    fix n
    show "bit (?v AND SR_VM cfg) n = bit (0 :: 32 word) n"
      using layout_facts(20,28,29,30)[OF assms, THEN disjointD, of n]
      by (auto simp: bit_simps)
  qed
  then show "sr (reset cfg s) AND SR_VM cfg = 0"
    by (simp add: sr_reset sr_masked_VM[OF assms])
qed

lemma power_on_reset: "sr_layout_ok cfg \<Longrightarrow> power_on_state cfg (reset cfg s)"
  by (simp add: power_on_state_def reset_fields reset_sr_bits layout_facts)

lemma step_loop_halt:
  assumes "step_loop cfg ex noisy n i s tr = Some (Halt_return s' tr')"
  shows "\<exists>s0. s' = reset cfg s0"
proof -
  let ?Q = "\<lambda>cfg (ex :: insn_exec) (noisy :: bool) (n :: nat) (i :: nat) (s :: processor_t)
              (tr :: trap_origin list) r.
        \<forall>s' tr'. r = Halt_return s' tr' \<longrightarrow> (\<exists>s0. s' = reset cfg s0)"
  have "?Q cfg ex noisy n i s tr (Halt_return s' tr')"
  proof (rule step_loop.raw_induct[where P = ?Q, OF _ assms])
    fix loop cfg ex noisy n i s tr r
    assume IH: "\<And>cfg ex noisy n i s tr r. loop cfg ex noisy n i s tr = Some r
                  \<Longrightarrow> ?Q cfg ex noisy n i s tr r"
      and body: "(case take_interrupt cfg s of
        None \<Rightarrow> None
      | Some None \<Rightarrow>
          (case run_insns ex noisy n i (pc s) s of
             Inl (Trap t, i', s') \<Rightarrow>
               loop cfg ex noisy n (i' + 1) (take_trap cfg t s') (tr @ [From_insn t])
           | Inl (Vt_command cmd, i', s') \<Rightarrow>
               (if cmd = vt_command_stop then Some (Break (i' + 1) s' tr)
                else Some (Assert_failed tr))
           | Inl (Halt, i', s') \<Rightarrow> Some (Halt_return (reset cfg s') tr)
           | Inr (i', npc, s') \<Rightarrow> Some (Break i' s' tr))
      | Some (Some t) \<Rightarrow>
          loop cfg ex noisy n (i + 1) (take_trap cfg t s) (tr @ [From_interrupt t])) = Some r"
    from body show "?Q cfg ex noisy n i s tr r"
      by (auto split: option.splits sum.splits prod.splits signal.splits if_splits dest!: IH)
  qed
  then show ?thesis by blast
qed

lemma mmu_set_sr:
  "supervisor (mmu (set_sr cfg w s)) = (sr_masked cfg w AND SR_S cfg \<noteq> 0)"
  "vm_enabled (mmu (set_sr cfg w s)) = (sr_masked cfg w AND SR_VM cfg \<noteq> 0)"
  "tlb_flushes (mmu (set_sr cfg w s)) = Suc (tlb_flushes (mmu s))"
  "mmu_badvaddr (mmu (set_sr cfg w s)) = mmu_badvaddr (mmu s)"
  by (simp_all add: set_sr_def Let_def)

lemma mmu_reset: "mmu (reset cfg s) = mmu (set_sr cfg (SR_S cfg OR SR_SX cfg OR SR_ET cfg OR SR_IM cfg) s)"
  by (simp add: reset_def set_sr_def set_fsr_def Let_def)

lemma mmu_new_microthread:
  "mmu (new_microthread cfg core_id ut raw)
     = mmu (set_sr cfg (sr (reset cfg raw) OR SR_EF cfg OR SR_EV cfg) (reset cfg raw))"
  by (simp add: new_microthread_def reset_def set_sr_def set_fsr_def Let_def)

lemma and_maskD: "a AND m = m \<Longrightarrow> bit m n \<Longrightarrow> bit (a :: 32 word) n"
  by (metis bit_and_iff)

lemma new_microthread_mmu_flags:
  assumes "sr_layout_ok cfg"
  shows "supervisor (mmu (new_microthread cfg core_id ut raw))"
    "\<not> vm_enabled (mmu (new_microthread cfg core_id ut raw))"
proof -
  let ?w = "sr (reset cfg raw) OR SR_EF cfg OR SR_EV cfg"
  have "?w AND SR_S cfg = SR_S cfg"
  proof (rule bit_eqI)
    fix n
    show "bit (?w AND SR_S cfg) n = bit (SR_S cfg) n"
      using reset_sr_bits(1)[OF assms, of raw, THEN and_maskD, of n]
      by (auto simp: bit_simps)
  qed
  then show "supervisor (mmu (new_microthread cfg core_id ut raw))"
    using assms by (simp add: mmu_new_microthread mmu_set_sr sr_masked_S layout_facts)
  have "?w AND SR_VM cfg = 0"
  proof (rule bit_eqI)
    fix n
    have "\<not> (bit (sr (reset cfg raw)) n \<and> bit (SR_VM cfg) n)"
      using reset_sr_bits(3)[OF assms, of raw, THEN disjointD, of n] by blast
    then show "bit (?w AND SR_VM cfg) n = bit (0 :: 32 word) n"
      using layout_facts(22,24)[OF assms, THEN disjointD, of n]
      by (auto simp: bit_simps)
  qed
  then show "\<not> vm_enabled (mmu (new_microthread cfg core_id ut raw))"
    using assms by (simp add: mmu_new_microthread mmu_set_sr sr_masked_VM)
qed

lemma new_uts_mmu_flags:
  assumes "sr_layout_ok cfg"
  shows "supervisor m \<and> \<not> vm_enabled m
    \<Longrightarrow> supervisor (snd (new_uts cfg core_id raws i k m))
        \<and> \<not> vm_enabled (snd (new_uts cfg core_id raws i k m))"
proof (induction k arbitrary: i m)
  case 0
  then show ?case by simp
next
  case (Suc k)
  let ?ut = "new_microthread cfg core_id (int i) ((raws i)\<lparr>mmu := m\<rparr>)"
  have "supervisor (mmu ?ut) \<and> \<not> vm_enabled (mmu ?ut)"
    using new_microthread_mmu_flags[OF assms] by blast
  then have "supervisor (snd (new_uts cfg core_id raws (Suc i) k (mmu ?ut)))
        \<and> \<not> vm_enabled (snd (new_uts cfg core_id raws (Suc i) k (mmu ?ut)))"
    by (rule Suc.IH)
  then show ?case by (simp add: Let_def case_prod_beta)
qed

lemma new_uts_flushes:
  "tlb_flushes (snd (new_uts cfg core_id raws i k m)) = tlb_flushes m + 2 * k"
proof (induction k arbitrary: i m)
  case 0
  then show ?case by simp
next
  case (Suc k)
  have "tlb_flushes (mmu (new_microthread cfg core_id (int i) ((raws i)\<lparr>mmu := m\<rparr>)))
          = tlb_flushes m + 2"
    by (simp add: mmu_new_microthread mmu_reset mmu_set_sr)
  with Suc.IH[of "Suc i" "mmu (new_microthread cfg core_id (int i) ((raws i)\<lparr>mmu := m\<rparr>))"]
  show ?case by (simp add: Let_def case_prod_beta)
qed

lemma new_uts_length: "length (fst (new_uts cfg core_id raws i k m)) = k"
  by (induction k arbitrary: i m) (simp_all add: Let_def case_prod_beta)

lemma new_processor_core:
  "fst (new_processor cfg core_id raw raws)
     = (reset cfg (raw\<lparr>id := core_id, utidx := 0\<rparr>))
         \<lparr>mmu := snd (new_uts cfg core_id raws 0 (nat (MAX_UTS cfg))
                        (mmu (reset cfg (raw\<lparr>id := core_id, utidx := 0\<rparr>))))\<rparr>"
  "snd (new_processor cfg core_id raw raws)
     = fst (new_uts cfg core_id raws 0 (nat (MAX_UTS cfg))
              (mmu (reset cfg (raw\<lparr>id := core_id, utidx := 0\<rparr>))))"
  by (simp_all add: new_processor_def Let_def case_prod_beta)

lemma new_processor_flushes:
  "tlb_flushes (mmu (fst (new_processor cfg core_id raw raws)))
     = tlb_flushes (mmu raw) + 1 + 2 * nat (MAX_UTS cfg)"
  "length (snd (new_processor cfg core_id raw raws)) = nat (MAX_UTS cfg)"
  by (simp_all add: new_processor_core new_uts_flushes new_uts_length mmu_reset mmu_set_sr)

lemma power_on_mmu_update:
  "power_on_state cfg s \<Longrightarrow> supervisor m \<and> \<not> vm_enabled m \<Longrightarrow> power_on_state cfg (s\<lparr>mmu := m\<rparr>)"
  by (simp add: power_on_state_def)

lemma power_on_new_processor:
  assumes "sr_layout_ok cfg"
  shows "power_on_state cfg (fst (new_processor cfg core_id raw raws))"
proof -
  let ?s1 = "reset cfg (raw\<lparr>id := core_id, utidx := 0\<rparr>)"
  have p: "power_on_state cfg ?s1" using assms by (rule power_on_reset)
  then have "supervisor (mmu ?s1) \<and> \<not> vm_enabled (mmu ?s1)"
    by (simp add: power_on_state_def)
  then have "supervisor (snd (new_uts cfg core_id raws 0 (nat (MAX_UTS cfg)) (mmu ?s1)))
        \<and> \<not> vm_enabled (snd (new_uts cfg core_id raws 0 (nat (MAX_UTS cfg)) (mmu ?s1)))"
    by (rule new_uts_mmu_flags[OF assms])
  with p show ?thesis
    by (simp only: new_processor_core) (rule power_on_mmu_update)
qed

text \<open>
  C5, amended. After \<^verbatim>\<open>reset\<close>, at construction of a core (once the constructors of
  its microthreads have run on the shared memory-management unit) as well as when
  \<^verbatim>\<open>step\<close> catches a halt signal, the processor is in the power-on state: the run flag
  is false, the program counter is 0 and the trap vector base is the boot address
  \<open>0x2000\<close>, the status word has supervisor mode and traps enabled and virtual memory
  disabled, and all integer and floating-point registers are zero. A \<^verbatim>\<open>step\<close> that
  catches a halt signal returns exactly a state that \<^verbatim>\<open>reset\<close> produced.
\<close>

theorem reset_power_on:
  assumes "sr_layout_ok cfg"
  shows "power_on_state cfg (reset cfg s)
       \<and> power_on_state cfg (fst (new_processor cfg core_id raw raws))
       \<and> (run s \<and> step_loop cfg ex noisy n 0 s [] = Some (Halt_return s' tr')
            \<longrightarrow> step cfg ex n noisy s = Some (Inr s') \<and> (\<exists>s0. s' = reset cfg s0)
                \<and> power_on_state cfg s')"
  using assms step_loop_halt[of cfg ex noisy n 0 s "[]" s' tr']
  by (auto simp: power_on_reset power_on_new_processor step_def)

lemma sample_halt_loop:
  "step_loop sample_config halt_exec False 2 0 (sample_state\<lparr>interrupts_pending := 0\<rparr>) []
     = Some (Halt_return (reset sample_config (sample_state\<lparr>interrupts_pending := 0\<rparr>)) [])"
proof -
  have q: "take_interrupt sample_config (sample_state\<lparr>interrupts_pending := 0\<rparr>) = Some None"
    by (simp add: take_interrupt_def Let_def)
  have "run_insns halt_exec False 2 0 (pc (sample_state\<lparr>interrupts_pending := 0\<rparr>))
          (sample_state\<lparr>interrupts_pending := 0\<rparr>)
        = Inl (Halt, 0, sample_state\<lparr>interrupts_pending := 0\<rparr>)"
    by (simp add: run_insns_def insn_loop4.simps insn_loop.simps execute_insn_def halt_exec_def)
  with q show ?thesis by (subst step_loop.simps) simp
qed

theorem reset_power_on_witness:
  "sr_layout_ok sample_config
   \<and> run (sample_state\<lparr>interrupts_pending := 0\<rparr>)
   \<and> step_loop sample_config halt_exec False 2 0 (sample_state\<lparr>interrupts_pending := 0\<rparr>) []
       = Some (Halt_return (reset sample_config (sample_state\<lparr>interrupts_pending := 0\<rparr>)) [])
   \<and> step sample_config halt_exec 2 False (sample_state\<lparr>interrupts_pending := 0\<rparr>)
       = Some (Inr (reset sample_config (sample_state\<lparr>interrupts_pending := 0\<rparr>)))
   \<and> power_on_state sample_config (reset sample_config (sample_state\<lparr>interrupts_pending := 0\<rparr>))
   \<and> sr (reset sample_config (sample_state\<lparr>interrupts_pending := 0\<rparr>)) = 0xFF21
   \<and> cycle (reset sample_config (sample_state\<lparr>interrupts_pending := 0\<rparr>)) = 0"
proof -
  have r: "run (sample_state\<lparr>interrupts_pending := 0\<rparr>)"
    by (simp add: sample_state_def)
  have v: "sr (reset sample_config (sample_state\<lparr>interrupts_pending := 0\<rparr>)) = 0xFF21"
    "cycle (reset sample_config (sample_state\<lparr>interrupts_pending := 0\<rparr>)) = 0"
    by (simp_all add: reset_def set_sr_def set_fsr_def sr_masked_def Let_def sample_config_def)
  from r v sample_halt_loop sample_layout_ok
    reset_power_on[OF sample_layout_ok, where s = "sample_state\<lparr>interrupts_pending := 0\<rparr>"
      and ex = halt_exec and noisy = False and n = 2 and tr' = "[]"
      and s' = "reset sample_config (sample_state\<lparr>interrupts_pending := 0\<rparr>)"]
  show ?thesis by blast
qed

text \<open>
  As C5 is written it fails: after \<^verbatim>\<open>reset\<close> the program counter is 0, not the boot
  address that the trap vector base holds.
\<close>

theorem reset_pc_not_boot_address:
  "pc (reset sample_config sample_state) = 0
   \<and> evec (reset sample_config sample_state) = 0x2000
   \<and> pc (reset sample_config sample_state) \<noteq> evec (reset sample_config sample_state)"
  by (simp add: reset_fields)

subsection \<open>Register length\<close>

lemma xprlen_set_sr: "xprlen_consistent cfg (set_sr cfg w s)"
  by (simp add: xprlen_consistent_def set_sr_def Let_def)

lemma xprlen_take_trap: "xprlen_consistent cfg (take_trap cfg t s)"
  by (simp add: xprlen_consistent_def take_trap_def set_sr_def Let_def)

lemma xprlen_reset: "xprlen_consistent cfg (reset cfg s)"
  by (simp add: xprlen_consistent_def reset_def set_sr_def set_fsr_def Let_def)

lemma xprlen_others:
  "xprlen_consistent cfg (set_fsr cfg v s) = xprlen_consistent cfg s"
  "xprlen_consistent cfg (vcfg cfg s) = xprlen_consistent cfg s"
  "xprlen_consistent cfg (setvl x s) = xprlen_consistent cfg s"
  "xprlen_consistent cfg (deliver_ipi cfg s) = xprlen_consistent cfg s"
  "xprlen_consistent cfg (update_timer cfg i s) = xprlen_consistent cfg s"
  "xprlen_consistent cfg (s\<lparr>pc := a\<rparr>) = xprlen_consistent cfg s"
  "xprlen_consistent cfg (s\<lparr>utidx := u\<rparr>) = xprlen_consistent cfg s"
  by (simp_all add: xprlen_consistent_def set_fsr_def vcfg_fields setvl_fields deliver_ipi_def
      update_timer_fields Let_def)

lemma xprlen_step:
  assumes "xprlen_consistent cfg s"
    and "\<And>npc s1. xprlen_consistent cfg s1 \<Longrightarrow> xprlen_consistent cfg (snd (ex npc s1))"
    and "step cfg ex n noisy s = Some (Inr s')"
  shows "xprlen_consistent cfg s'"
proof (cases "run s")
  case False
  with assms(1,3) show ?thesis by (simp add: step_def)
next
  case True
  with assms(3) obtain r where r: "step_loop cfg ex noisy n 0 s [] = Some r"
    by (auto simp: step_def split: option.splits)
  have "exit_ok (xprlen_consistent cfg) r"
    using r
  proof (rule step_loop_inv)
    show "xprlen_consistent cfg s" by (rule assms(1))
  qed (simp_all add: assms(2) xprlen_others xprlen_take_trap xprlen_reset)
  with True r assms(3) show ?thesis
    by (auto simp: step_def exit_ok_def xprlen_others split: loop_exit.splits)
qed

lemma xprlen_mmu: "xprlen_consistent cfg (s\<lparr>mmu := m\<rparr>) = xprlen_consistent cfg s"
  by (simp add: xprlen_consistent_def)

lemma xprlen_new_microthread: "xprlen_consistent cfg (new_microthread cfg core_id ut raw)"
  by (simp add: new_microthread_def Let_def xprlen_others xprlen_set_sr)

lemma xprlen_new_uts: "list_all (xprlen_consistent cfg) (fst (new_uts cfg core_id raws i k m))"
  by (induction k arbitrary: i m) (simp_all add: Let_def case_prod_beta xprlen_new_microthread)

text \<open>
  C4. Right after \<^verbatim>\<open>set_sr\<close> has written any value, \<open>xprlen\<close> is 64 if the supervisor
  bit and the 64-bit-supervisor bit of the stored status word are set, or the supervisor
  bit is clear and the 64-bit-user bit is set, and 32 otherwise. No operation leaves
  \<open>xprlen\<close> inconsistent with the mode bits: \<^verbatim>\<open>reset\<close>, \<^verbatim>\<open>take_trap\<close> and the two
  constructors (for the core and for each of its microthreads) establish the relation, \<^verbatim>\<open>set_fsr\<close>, \<^verbatim>\<open>vcfg\<close>, \<^verbatim>\<open>setvl\<close> and
  \<^verbatim>\<open>deliver_ipi\<close> keep it, and so does \<^verbatim>\<open>step\<close> when the instructions it executes do.
\<close>

theorem xprlen_follows_sr:
  "xprlen (set_sr cfg w s) =
     (if (sr (set_sr cfg w s) AND SR_S cfg \<noteq> 0 \<and> sr (set_sr cfg w s) AND SR_SX cfg \<noteq> 0)
         \<or> (sr (set_sr cfg w s) AND SR_S cfg = 0 \<and> sr (set_sr cfg w s) AND SR_UX cfg \<noteq> 0)
      then 64 else 32)
   \<and> xprlen_consistent cfg (set_sr cfg w s)
   \<and> xprlen_consistent cfg (reset cfg s)
   \<and> xprlen_consistent cfg (take_trap cfg t s)
   \<and> xprlen_consistent cfg (fst (new_processor cfg core_id raw raws))
   \<and> list_all (xprlen_consistent cfg) (snd (new_processor cfg core_id raw raws))
   \<and> xprlen_consistent cfg (new_microthread cfg core_id ut raw)
   \<and> (xprlen_consistent cfg s \<longrightarrow>
        xprlen_consistent cfg (set_fsr cfg v s) \<and> xprlen_consistent cfg (vcfg cfg s)
        \<and> xprlen_consistent cfg (setvl x s) \<and> xprlen_consistent cfg (deliver_ipi cfg s))
   \<and> (xprlen_consistent cfg s
        \<and> (\<forall>npc s1. xprlen_consistent cfg s1 \<longrightarrow> xprlen_consistent cfg (snd (ex npc s1)))
        \<and> step cfg ex n noisy s = Some (Inr s')
       \<longrightarrow> xprlen_consistent cfg s')"
proof -
  have "xprlen_consistent cfg (set_sr cfg w s)" by (rule xprlen_set_sr)
  then have "xprlen (set_sr cfg w s) =
     (if (sr (set_sr cfg w s) AND SR_S cfg \<noteq> 0 \<and> sr (set_sr cfg w s) AND SR_SX cfg \<noteq> 0)
         \<or> (sr (set_sr cfg w s) AND SR_S cfg = 0 \<and> sr (set_sr cfg w s) AND SR_UX cfg \<noteq> 0)
      then 64 else 32)"
    by (simp only: xprlen_consistent_def)
  moreover have "xprlen_consistent cfg (new_microthread cfg core_id ut raw)"
    by (rule xprlen_new_microthread)
  moreover have "xprlen_consistent cfg (fst (new_processor cfg core_id raw raws))"
    "list_all (xprlen_consistent cfg) (snd (new_processor cfg core_id raw raws))"
    by (simp_all add: new_processor_core xprlen_mmu xprlen_reset xprlen_new_uts)
  moreover have "xprlen_consistent cfg s
        \<and> (\<forall>npc s1. xprlen_consistent cfg s1 \<longrightarrow> xprlen_consistent cfg (snd (ex npc s1)))
        \<and> step cfg ex n noisy s = Some (Inr s')
       \<longrightarrow> xprlen_consistent cfg s'"
    using xprlen_step[of cfg s ex n noisy s'] by blast
  ultimately show ?thesis
    by (simp add: xprlen_set_sr xprlen_reset xprlen_take_trap xprlen_others)
qed

lemma quiet_nop_loop:
  "step_loop sample_config nop_exec False 2 0 quiet_state []
     = Some (Break 2 (quiet_state\<lparr>pc := 0x3008\<rparr>) [])"
proof -
  have q: "take_interrupt sample_config quiet_state = Some None"
    by (simp add: take_interrupt_def Let_def quiet_state_def)
  have "run_insns nop_exec False 2 0 (pc quiet_state) quiet_state
        = Inr (2, 0x3008, quiet_state\<lparr>pc := 0x3008\<rparr>)"
    by (simp add: run_insns_def insn_loop4.simps insn_loop.simps execute_insn_def nop_exec_def
        quiet_state_def sample_state_def)
  with q show ?thesis by (subst step_loop.simps) simp
qed

theorem xprlen_follows_sr_witness:
  "xprlen_consistent sample_config quiet_state
   \<and> step sample_config nop_exec 2 False quiet_state
       = Some (Inr (update_timer sample_config 2 (quiet_state\<lparr>pc := 0x3008\<rparr>)))
   \<and> xprlen_consistent sample_config (update_timer sample_config 2 (quiet_state\<lparr>pc := 0x3008\<rparr>))
   \<and> xprlen (set_sr (sample_config\<lparr>RISCV_ENABLE_64BIT := True\<rparr>) 0xA0 sample_state) = 64
   \<and> xprlen (set_sr sample_config 0xA0 sample_state) = 32"
proof -
  have h1: "xprlen_consistent sample_config quiet_state"
    by (simp add: xprlen_consistent_def quiet_state_def sample_state_def sample_config_def)
  have h2: "\<forall>npc s1. xprlen_consistent sample_config s1
                \<longrightarrow> xprlen_consistent sample_config (snd (nop_exec npc s1))"
    by (simp add: nop_exec_def)
  have "run quiet_state" by (simp add: quiet_state_def sample_state_def)
  then have h3: "step sample_config nop_exec 2 False quiet_state
       = Some (Inr (update_timer sample_config 2 (quiet_state\<lparr>pc := 0x3008\<rparr>)))"
    by (simp add: step_def quiet_nop_loop)
  have v: "xprlen (set_sr (sample_config\<lparr>RISCV_ENABLE_64BIT := True\<rparr>) 0xA0 sample_state) = 64"
    "xprlen (set_sr sample_config 0xA0 sample_state) = 32"
    by (simp_all add: set_sr_def sr_masked_def Let_def sample_config_def)
  from h1 h2 h3 v
    xprlen_follows_sr[where cfg = sample_config and s = quiet_state and ex = nop_exec
      and n = 2 and noisy = False
      and s' = "update_timer sample_config 2 (quiet_state\<lparr>pc := 0x3008\<rparr>)"]
  show ?thesis by blast
qed

subsection \<open>The timer\<close>

lemma update_timer_pending:
  "interrupts_pending (update_timer cfg i s) =
     (if count s < compare s \<and> ucast (compare s) \<le> (ucast (count s) + of_nat i :: 64 word)
      then interrupts_pending s OR push_bit (TIMER_IRQ cfg) 1 else interrupts_pending s)"
  by (simp add: update_timer_def Let_def)

lemma crossing_64:
  assumes "unat (count s) + i < 2 ^ 64"
  shows "(ucast (compare s) \<le> (ucast (count s) + of_nat i :: 64 word))
           = (unat (compare s) \<le> unat (count s) + i)"
proof -
  have "i < 2 ^ 64" using assms by simp
  then have "unat (of_nat i :: 64 word) = i"
    by (simp add: unat_of_nat)
  then have "unat (ucast (count s) + of_nat i :: 64 word) = unat (count s) + i"
    using assms by (simp add: unat_word_ariths(1) unat_ucast_32_64)
  then show ?thesis
    by (simp add: word_le_nat_alt unat_ucast_32_64)
qed

lemma count_no_wrap:
  assumes "unat (count s) + i < 2 ^ 32"
  shows "unat (count (update_timer cfg i s)) = unat (count s) + i"
proof -
  have "i < 2 ^ 32" using assms by simp
  then have "unat (of_nat i :: 32 word) = i"
    by (simp add: unat_of_nat)
  then show ?thesis
    using assms by (simp add: update_timer_fields unat_word_ariths(1))
qed

lemma asserts_break:
  "run s \<Longrightarrow> step_loop cfg ex noisy n 0 s [] = Some (Break i s1 tr) \<Longrightarrow>
   step_asserts_timer cfg ex n noisy s
     = (count s1 < compare s1 \<and> ucast (compare s1) \<le> (ucast (count s1) + of_nat i :: 64 word))"
  by (simp add: step_asserts_timer_def)

text \<open>
  C6, amended. Take a call of \<^verbatim>\<open>step\<close> on a running processor whose loop is left by a
  \<^verbatim>\<open>break\<close> with the count \<open>i\<close> in the state \<open>s1\<close>. The call ends by \<open>update_timer\<close>
  and sets the timer line exactly when it asserts it. It asserts the line if and only if
  the counter was strictly below \<open>compare\<close> and the counter plus \<open>i\<close>, taken without the
  wrap-around of the 32-bit counter, is at or above it (the sum is formed in 64 bits,
  which is assumed not to overflow either). When the addition of such a crossing does not
  wrap the counter, the call leaves the counter at or above \<open>compare\<close>. And a call that
  starts with the counter at or above \<open>compare\<close>, and whose instructions write neither of
  the two, does not assert the line, leaves \<open>compare\<close> alone and, as long as its addition
  does not wrap the counter, leaves the counter at or above \<open>compare\<close> for the next call.
\<close>

theorem timer_edge:
  "run s \<and> step_loop cfg ex noisy n 0 s [] = Some (Break i s1 tr) \<longrightarrow>
     step cfg ex n noisy s = Some (Inr (update_timer cfg i s1))
     \<and> interrupts_pending (update_timer cfg i s1) =
         (if step_asserts_timer cfg ex n noisy s
          then interrupts_pending s1 OR push_bit (TIMER_IRQ cfg) 1 else interrupts_pending s1)
     \<and> (unat (count s1) + i < 2 ^ 64 \<longrightarrow>
          step_asserts_timer cfg ex n noisy s
            = (count s1 < compare s1 \<and> unat (compare s1) \<le> unat (count s1) + i))
     \<and> (step_asserts_timer cfg ex n noisy s \<and> unat (count s1) + i < 2 ^ 32 \<longrightarrow>
          compare (update_timer cfg i s1) \<le> count (update_timer cfg i s1))
     \<and> (compare s \<le> count s \<and> compare s1 = compare s \<and> count s1 = count s \<longrightarrow>
          \<not> step_asserts_timer cfg ex n noisy s
          \<and> compare (update_timer cfg i s1) = compare s
          \<and> (unat (count s) + i < 2 ^ 32 \<longrightarrow>
               compare (update_timer cfg i s1) \<le> count (update_timer cfg i s1)))"
proof (intro impI)
  assume a: "run s \<and> step_loop cfg ex noisy n 0 s [] = Some (Break i s1 tr)"
  then have ev: "step_asserts_timer cfg ex n noisy s
     = (count s1 < compare s1 \<and> ucast (compare s1) \<le> (ucast (count s1) + of_nat i :: 64 word))"
    by (simp add: asserts_break)
  have c1: "step cfg ex n noisy s = Some (Inr (update_timer cfg i s1))"
    using a by (simp add: step_def)
  have c2: "interrupts_pending (update_timer cfg i s1) =
         (if step_asserts_timer cfg ex n noisy s
          then interrupts_pending s1 OR push_bit (TIMER_IRQ cfg) 1 else interrupts_pending s1)"
    by (simp only: ev update_timer_pending)
  have c3: "unat (count s1) + i < 2 ^ 64 \<longrightarrow>
          step_asserts_timer cfg ex n noisy s
            = (count s1 < compare s1 \<and> unat (compare s1) \<le> unat (count s1) + i)"
    by (simp add: ev crossing_64)
  have c4: "step_asserts_timer cfg ex n noisy s \<and> unat (count s1) + i < 2 ^ 32 \<longrightarrow>
          compare (update_timer cfg i s1) \<le> count (update_timer cfg i s1)"
  proof
    assume h: "step_asserts_timer cfg ex n noisy s \<and> unat (count s1) + i < 2 ^ 32"
    then have "unat (count s1) + i < 2 ^ 64" by simp
    with h c3 have "unat (compare s1) \<le> unat (count s1) + i" by blast
    moreover have "unat (count (update_timer cfg i s1)) = unat (count s1) + i"
      using h by (intro count_no_wrap) simp
    ultimately show "compare (update_timer cfg i s1) \<le> count (update_timer cfg i s1)"
      by (simp add: word_le_nat_alt update_timer_fields)
  qed
  have c5: "compare s \<le> count s \<and> compare s1 = compare s \<and> count s1 = count s \<longrightarrow>
          \<not> step_asserts_timer cfg ex n noisy s
          \<and> compare (update_timer cfg i s1) = compare s
          \<and> (unat (count s) + i < 2 ^ 32 \<longrightarrow>
               compare (update_timer cfg i s1) \<le> count (update_timer cfg i s1))"
  proof (intro impI conjI)
    assume h: "compare s \<le> count s \<and> compare s1 = compare s \<and> count s1 = count s"
    then show "\<not> step_asserts_timer cfg ex n noisy s"
      by (simp add: ev not_less[symmetric])
    from h show "compare (update_timer cfg i s1) = compare s"
      by (simp add: update_timer_fields)
    assume "unat (count s) + i < 2 ^ 32"
    with h have "unat (count (update_timer cfg i s1)) = unat (count s) + i"
      using count_no_wrap[of s1 i cfg] by simp
    with h show "compare (update_timer cfg i s1) \<le> count (update_timer cfg i s1)"
      by (simp add: word_le_nat_alt update_timer_fields)
  qed
  from c1 c2 c3 c4 c5 show "step cfg ex n noisy s = Some (Inr (update_timer cfg i s1))
     \<and> interrupts_pending (update_timer cfg i s1) =
         (if step_asserts_timer cfg ex n noisy s
          then interrupts_pending s1 OR push_bit (TIMER_IRQ cfg) 1 else interrupts_pending s1)
     \<and> (unat (count s1) + i < 2 ^ 64 \<longrightarrow>
          step_asserts_timer cfg ex n noisy s
            = (count s1 < compare s1 \<and> unat (compare s1) \<le> unat (count s1) + i))
     \<and> (step_asserts_timer cfg ex n noisy s \<and> unat (count s1) + i < 2 ^ 32 \<longrightarrow>
          compare (update_timer cfg i s1) \<le> count (update_timer cfg i s1))
     \<and> (compare s \<le> count s \<and> compare s1 = compare s \<and> count s1 = count s \<longrightarrow>
          \<not> step_asserts_timer cfg ex n noisy s
          \<and> compare (update_timer cfg i s1) = compare s
          \<and> (unat (count s) + i < 2 ^ 32 \<longrightarrow>
               compare (update_timer cfg i s1) \<le> count (update_timer cfg i s1)))"
    by (intro conjI)
qed

text \<open>The stream of instructions that only move on, for any budget.\<close>

lemma nop_insn_loop:
  "n - i = k \<Longrightarrow> i \<le> n \<Longrightarrow>
   insn_loop nop_exec n i npc s
     = Inr (n, npc + 4 * of_nat k, (if 0 < k then s\<lparr>pc := npc + 4 * of_nat k\<rparr> else s))"
proof (induction k arbitrary: i npc s)
  case 0
  then show ?case by (simp add: insn_loop_done)
next
  case (Suc k)
  then have lt: "i < n" and k: "n - (i + 1) = k" and le: "i + 1 \<le> n" by simp_all
  have e: "execute_insn nop_exec npc s = Inr (npc + 4, s\<lparr>pc := npc + 4\<rparr>)"
    by (simp add: execute_insn_def nop_exec_def)
  have "insn_loop nop_exec n i npc s = insn_loop nop_exec n (i + 1) (npc + 4) (s\<lparr>pc := npc + 4\<rparr>)"
    using lt by (subst insn_loop.simps) (simp add: e)
  also have "\<dots> = Inr (n, npc + 4 + 4 * of_nat k,
      (if 0 < k then s\<lparr>pc := npc + 4\<rparr>\<lparr>pc := npc + 4 + 4 * of_nat k\<rparr> else s\<lparr>pc := npc + 4\<rparr>))"
    using k le by (rule Suc.IH)
  finally show ?case by (simp add: algebra_simps)
qed

lemma nop_step_loop:
  assumes "take_interrupt cfg s = Some None" "0 < n"
  shows "step_loop cfg nop_exec True n 0 s [] = Some (Break n (s\<lparr>pc := pc s + 4 * of_nat n\<rparr>) [])"
proof -
  have "run_insns nop_exec True n 0 (pc s) s
          = Inr (n, pc s + 4 * of_nat n, s\<lparr>pc := pc s + 4 * of_nat n\<rparr>)"
    using assms(2) nop_insn_loop[of n 0 n "pc s" s] by (simp add: run_insns_def)
  with assms(1) show ?thesis by (subst step_loop.simps) simp
qed


lemma take_trap_counters:
  "count (take_trap cfg t s) = count s" "compare (take_trap cfg t s) = compare s"
  by (simp_all add: take_trap_def set_sr_def Let_def)

lemma masked_quiet:
  "take_interrupt sample_config masked_state = Some None"
  "take_interrupt sample_config timer_run1 = Some None"
  "take_interrupt sample_config timer_run2 = Some None"
  "take_interrupt sample_config timer_wrap0 = Some None"
  by (simp_all add: take_interrupt_no_ET masked_state_def timer_run1_def timer_run2_def
      timer_wrap0_def sample_config_def)

lemma masked_run:
  "run masked_state" "run timer_run1" "run timer_run2" "run timer_wrap0" "run sample_state"
  by (simp_all add: masked_state_def timer_run1_def timer_run2_def timer_wrap0_def
      sample_state_def)

lemma timer_loops:
  "step_loop sample_config nop_exec True 2 0 masked_state []
     = Some (Break 2 (masked_state\<lparr>pc := 0x3008\<rparr>) [])"
  "step_loop sample_config nop_exec True 3 0 timer_run1 []
     = Some (Break 3 (timer_run1\<lparr>pc := 0x3014\<rparr>) [])"
  "step_loop sample_config nop_exec True 4294967290 0 timer_run1 []
     = Some (Break 4294967290 (timer_run1\<lparr>pc := 17179881456\<rparr>) [])"
  "step_loop sample_config nop_exec True 5 0 timer_run2 []
     = Some (Break 5 (timer_run2\<lparr>pc := 17179881476\<rparr>) [])"
  "step_loop sample_config nop_exec True 3 0 timer_wrap0 []
     = Some (Break 3 (timer_wrap0\<lparr>pc := 0x300C\<rparr>) [])"
  by (simp_all add: nop_step_loop masked_quiet)
    (simp_all add: masked_state_def timer_run1_def timer_run2_def timer_wrap0_def
      sample_state_def)

lemma timer_results:
  "update_timer sample_config 2 (masked_state\<lparr>pc := 0x3008\<rparr>) = timer_run1"
  "update_timer sample_config 4294967290 (timer_run1\<lparr>pc := 17179881456\<rparr>) = timer_run2"
  "update_timer sample_config 3 (timer_wrap0\<lparr>pc := 0x300C\<rparr>) = timer_wrap1"
  by (simp_all add: update_timer_def Let_def masked_state_def timer_run1_def timer_run2_def
      timer_wrap0_def timer_wrap1_def sample_state_def sample_config_def)

lemma timer_events:
  "step_asserts_timer sample_config nop_exec 2 True masked_state"
  "\<not> step_asserts_timer sample_config nop_exec 3 True timer_run1"
  "\<not> step_asserts_timer sample_config nop_exec 4294967290 True timer_run1"
  "step_asserts_timer sample_config nop_exec 5 True timer_run2"
  "step_asserts_timer sample_config nop_exec 3 True timer_wrap0"
  by (simp_all add: step_asserts_timer_def masked_run timer_loops)
    (simp_all add: masked_state_def timer_run1_def timer_run2_def timer_wrap0_def
      sample_state_def)

lemma zero_budget_event:
  "step_asserts_timer sample_config nop_exec 0 True sample_state"
  by (simp add: step_asserts_timer_def masked_run step_loop_done sample_layout_ok sample_irq
      take_trap_counters)
    (simp add: sample_state_def)

theorem timer_edge_witness:
  "run masked_state
   \<and> step_loop sample_config nop_exec True 2 0 masked_state []
       = Some (Break 2 (masked_state\<lparr>pc := 0x3008\<rparr>) [])
   \<and> step sample_config nop_exec 2 True masked_state
       = Some (Inr (update_timer sample_config 2 (masked_state\<lparr>pc := 0x3008\<rparr>)))
   \<and> update_timer sample_config 2 (masked_state\<lparr>pc := 0x3008\<rparr>) = timer_run1
   \<and> step_asserts_timer sample_config nop_exec 2 True masked_state
   \<and> interrupts_pending timer_run1 = 0x80
   \<and> compare timer_run1 \<le> count timer_run1
   \<and> run timer_run1
   \<and> step_loop sample_config nop_exec True 3 0 timer_run1 []
       = Some (Break 3 (timer_run1\<lparr>pc := 0x3014\<rparr>) [])
   \<and> \<not> step_asserts_timer sample_config nop_exec 3 True timer_run1
   \<and> compare (update_timer sample_config 3 (timer_run1\<lparr>pc := 0x3014\<rparr>))
       \<le> count (update_timer sample_config 3 (timer_run1\<lparr>pc := 0x3014\<rparr>))"
proof -
  note w1 = timer_edge[where cfg = sample_config and s = masked_state and ex = nop_exec
      and n = 2 and noisy = True and i = 2 and ?s1.0 = "masked_state\<lparr>pc := 0x3008\<rparr>"
      and tr = "[]", THEN mp, OF conjI, OF masked_run(1) timer_loops(1)]
  note w2 = timer_edge[where cfg = sample_config and s = timer_run1 and ex = nop_exec
      and n = 3 and noisy = True and i = 3 and ?s1.0 = "timer_run1\<lparr>pc := 0x3014\<rparr>"
      and tr = "[]", THEN mp, OF conjI, OF masked_run(2) timer_loops(2)]
  have a: "step sample_config nop_exec 2 True masked_state
       = Some (Inr (update_timer sample_config 2 (masked_state\<lparr>pc := 0x3008\<rparr>)))"
    by (rule w1[THEN conjunct1])
  have h1: "unat (count (masked_state\<lparr>pc := 0x3008\<rparr>)) + 2 < 2 ^ 64"
    "count (masked_state\<lparr>pc := 0x3008\<rparr>) < compare (masked_state\<lparr>pc := 0x3008\<rparr>)
      \<and> unat (compare (masked_state\<lparr>pc := 0x3008\<rparr>))
          \<le> unat (count (masked_state\<lparr>pc := 0x3008\<rparr>)) + 2"
    by (simp_all add: masked_state_def sample_state_def)
  have b: "step_asserts_timer sample_config nop_exec 2 True masked_state"
    using w1[THEN conjunct2, THEN conjunct2, THEN conjunct1, THEN mp, OF h1(1)] h1(2)
    by (rule iffD2)
  have h2: "compare timer_run1 \<le> count timer_run1
      \<and> compare (timer_run1\<lparr>pc := 0x3014\<rparr>) = compare timer_run1
      \<and> count (timer_run1\<lparr>pc := 0x3014\<rparr>) = count timer_run1"
    "unat (count timer_run1) + 3 < 2 ^ 32"
    by (simp_all add: timer_run1_def masked_state_def sample_state_def)
  note c = w2[THEN conjunct2, THEN conjunct2, THEN conjunct2, THEN conjunct2, THEN mp, OF h2(1)]
  have d: "\<not> step_asserts_timer sample_config nop_exec 3 True timer_run1"
    by (rule c[THEN conjunct1])
  have e: "compare (update_timer sample_config 3 (timer_run1\<lparr>pc := 0x3014\<rparr>))
       \<le> count (update_timer sample_config 3 (timer_run1\<lparr>pc := 0x3014\<rparr>))"
    by (rule c[THEN conjunct2, THEN conjunct2, THEN mp, OF h2(2)])
  have f: "interrupts_pending timer_run1 = 0x80"
    by (simp add: timer_run1_def)
  show ?thesis
    by (intro conjI masked_run(1,2) timer_loops(1,2) a timer_results(1) b f h2(1)[THEN conjunct1] d e)
qed

text \<open>
  As C6 is written it fails. With traps disabled, \<open>compare = 5\<close> and the counter at 4, a
  call with a budget of 2 crosses the threshold and asserts the line. From the state it
  returns, a call with a budget of \<open>2^32 - 6\<close> wraps the counter to 0 without asserting.
  From the state that one returns, with \<open>compare\<close> still 5, a call with a budget of 5
  asserts the line again. With the counter at \<open>2^32 - 2\<close> and \<open>compare = 2^32 - 1\<close> a
  call with a budget of 3 asserts the line although the counter after the addition, 1, is
  below \<open>compare\<close>. And a call with a budget of zero on the sample state executes no
  instruction, yet it delivers the pending interrupt, counts 1 for it and so asserts the
  line, with the counter at 4 below \<open>compare = 5\<close>.
\<close>

theorem timer_fires_again:
  "step sample_config nop_exec 2 True masked_state = Some (Inr timer_run1)
   \<and> step_asserts_timer sample_config nop_exec 2 True masked_state
   \<and> step sample_config nop_exec 4294967290 True timer_run1 = Some (Inr timer_run2)
   \<and> \<not> step_asserts_timer sample_config nop_exec 4294967290 True timer_run1
   \<and> compare timer_run2 = compare masked_state
   \<and> step_asserts_timer sample_config nop_exec 5 True timer_run2
   \<and> step sample_config nop_exec 3 True timer_wrap0 = Some (Inr timer_wrap1)
   \<and> step_asserts_timer sample_config nop_exec 3 True timer_wrap0
   \<and> count timer_wrap1 < compare timer_wrap1
   \<and> step_asserts_timer sample_config nop_exec 0 True sample_state
   \<and> count sample_state < compare sample_state
   \<and> \<not> unat (compare sample_state) \<le> unat (count sample_state) + 0"
proof -
  have s: "step sample_config nop_exec 2 True masked_state = Some (Inr timer_run1)"
    "step sample_config nop_exec 4294967290 True timer_run1 = Some (Inr timer_run2)"
    "step sample_config nop_exec 3 True timer_wrap0 = Some (Inr timer_wrap1)"
    by (simp_all add: step_def masked_run timer_loops timer_results)
  have f: "compare timer_run2 = compare masked_state" "count timer_wrap1 < compare timer_wrap1"
    "count sample_state < compare sample_state"
    "\<not> unat (compare sample_state) \<le> unat (count sample_state) + 0"
    by (simp_all add: masked_state_def timer_run2_def timer_wrap1_def sample_state_def)
  show ?thesis
    by (intro conjI s f timer_events(1,3,4,5) zero_budget_event)
qed

subsection \<open>Interrupts during one step\<close>

lemma irq_traps_simps:
  "irq_traps [] = 0"
  "irq_traps (tr @ [From_insn t]) = irq_traps tr"
  "irq_traps (tr @ [From_interrupt t]) = Suc (irq_traps tr)"
  by (simp_all add: irq_traps_def)


lemma step_loop_no_irq:
  assumes r: "step_loop cfg ex noisy n i s tr = Some r"
    and lay: "sr_layout_ok cfg"
    and s: "sr s AND SR_ET cfg = 0"
  shows "irq_traps (exit_trace r) = irq_traps tr"
proof -
  let ?Q = "\<lambda>cfg (ex :: insn_exec) (noisy :: bool) (n :: nat) (i :: nat) s tr r.
        sr_layout_ok cfg \<longrightarrow> sr s AND SR_ET cfg = 0
        \<longrightarrow> irq_traps (exit_trace r) = irq_traps tr"
  have "?Q cfg ex noisy n i s tr r"
  proof (rule step_loop.raw_induct[where P = ?Q, OF _ r])
    fix loop cfg ex noisy n i s tr r
    assume IH: "\<And>cfg ex noisy n i s tr r. loop cfg ex noisy n i s tr = Some r
                  \<Longrightarrow> ?Q cfg ex noisy n i s tr r"
      and body: "(case take_interrupt cfg s of
        None \<Rightarrow> None
      | Some None \<Rightarrow>
          (case run_insns ex noisy n i (pc s) s of
             Inl (Trap t, i', s') \<Rightarrow>
               loop cfg ex noisy n (i' + 1) (take_trap cfg t s') (tr @ [From_insn t])
           | Inl (Vt_command cmd, i', s') \<Rightarrow>
               (if cmd = vt_command_stop then Some (Break (i' + 1) s' tr)
                else Some (Assert_failed tr))
           | Inl (Halt, i', s') \<Rightarrow> Some (Halt_return (reset cfg s') tr)
           | Inr (i', npc, s') \<Rightarrow> Some (Break i' s' tr))
      | Some (Some t) \<Rightarrow>
          loop cfg ex noisy n (i + 1) (take_trap cfg t s) (tr @ [From_interrupt t])) = Some r"
    show "?Q cfg ex noisy n i s tr r"
    proof (intro impI)
      assume lay: "sr_layout_ok cfg" and s: "sr s AND SR_ET cfg = 0"
      have ti: "take_interrupt cfg s = Some None"
        using s by (rule take_interrupt_no_ET)
      have tt: "sr (take_trap cfg t s') AND SR_ET cfg = 0" for t s'
        using lay by (rule take_trap_ET)
      from body ti lay tt show "irq_traps (exit_trace r) = irq_traps tr"
        by (auto simp: irq_traps_simps split: sum.splits prod.splits signal.splits
            if_splits dest!: IH)
    qed
  qed
  with lay s show ?thesis by blast
qed

text \<open>
  C9. Trap delivery clears the traps-enabled bit, so the interrupt check that is retried
  after a delivery throws nothing. The loop of \<^verbatim>\<open>step\<close> always returns, and at most one
  of the traps delivered during the call comes from the interrupt check, whatever the
  executed instructions do: the check is made only when the call starts and right after a
  delivery, so even an instruction that enables traps again is followed by no second
  interrupt trap before the call returns.
\<close>

theorem one_interrupt_per_step:
  assumes "sr_layout_ok cfg"
  shows "take_interrupt cfg (take_trap cfg t s0) = Some None
       \<and> (\<exists>r. step_loop cfg ex noisy n 0 s [] = Some r)
       \<and> (\<forall>r. step_loop cfg ex noisy n 0 s [] = Some r
                      \<longrightarrow> irq_traps (exit_trace r) \<le> 1)"
proof (intro conjI impI allI)
  show "take_interrupt cfg (take_trap cfg t s0) = Some None"
    using assms by (rule take_interrupt_after_trap)
  show "\<exists>r. step_loop cfg ex noisy n 0 s [] = Some r"
    using assms by (rule step_loop_returns)
next
  fix r
  assume r: "step_loop cfg ex noisy n 0 s [] = Some r"
  have later: "irq_traps (exit_trace r) = irq_traps tr"
    if "step_loop cfg ex noisy n i (take_trap cfg t s') tr = Some r" for i t s' tr
    using that assms take_trap_ET[OF assms] by (rule step_loop_no_irq)
  from r show "irq_traps (exit_trace r) \<le> 1"
    by (subst (asm) step_loop.simps)
      (auto simp: irq_traps_def split: option.splits sum.splits prod.splits signal.splits
        if_splits dest!: later)
qed

lemma sample_rearm_loop:
  "step_loop sample_config rearm_exec False 3 0 sample_state []
     = Some (Break 3 (take_trap sample_config 2
                 ((take_trap sample_config 21 sample_state)\<lparr>sr := 0xFF21, pc := 0x2004\<rparr>))
               [From_interrupt 21, From_insn 2])"
proof -
  let ?s1 = "take_trap sample_config 21 sample_state"
  let ?s2 = "?s1\<lparr>sr := 0xFF21, pc := 0x2004\<rparr>"
  have f: "pc ?s1 = 0x2000" "sr ?s1 = 0xFF20"
    by (simp_all add: take_trap_def set_sr_def sr_masked_def Let_def sample_config_def
        sample_state_def)
  have "run_insns rearm_exec False 3 1 (pc ?s1) ?s1 = Inl (Trap 2, 2, ?s2)"
    by (simp add: f run_insns_def insn_loop4.simps insn_loop.simps execute_insn_def
        rearm_exec_def)
  then have "step_loop sample_config rearm_exec False 3 1 ?s1 [From_interrupt 21]
        = step_loop sample_config rearm_exec False 3 (2 + 1) (take_trap sample_config 2 ?s2)
            ([From_interrupt 21] @ [From_insn 2])"
    by (subst step_loop.simps) (simp add: take_interrupt_after_trap sample_layout_ok)
  also have "\<dots> = Some (Break 3 (take_trap sample_config 2 ?s2) [From_interrupt 21, From_insn 2])"
    by (simp add: step_loop_done sample_layout_ok take_interrupt_after_trap)
  finally have "step_loop sample_config rearm_exec False 3 (0 + 1) ?s1 ([] @ [From_interrupt 21])
      = Some (Break 3 (take_trap sample_config 2 ?s2) [From_interrupt 21, From_insn 2])"
    by simp
  then show ?thesis
    by (subst step_loop.simps) (simp only: sample_irq option.case)
qed

theorem one_interrupt_per_step_witness:
  "sr_layout_ok sample_config
   \<and> take_interrupt sample_config (take_trap sample_config 21 sample_state) = Some None
   \<and> sr ((take_trap sample_config 21 sample_state)\<lparr>sr := 0xFF21, pc := 0x2004\<rparr>)
        AND SR_ET sample_config \<noteq> 0
   \<and> step_loop sample_config rearm_exec False 3 0 sample_state []
       = Some (Break 3 (take_trap sample_config 2
                 ((take_trap sample_config 21 sample_state)\<lparr>sr := 0xFF21, pc := 0x2004\<rparr>))
               [From_interrupt 21, From_insn 2])
   \<and> irq_traps [From_interrupt 21, From_insn 2] \<le> 1"
proof -
  note w = one_interrupt_per_step[OF sample_layout_ok, where ex = rearm_exec and noisy = False
      and n = 3 and s = sample_state and t = 21 and ?s0.0 = sample_state]
  from w sample_rearm_loop
  have "irq_traps (exit_trace (Break 3 (take_trap sample_config 2
          ((take_trap sample_config 21 sample_state)\<lparr>sr := 0xFF21, pc := 0x2004\<rparr>))
          [From_interrupt 21, From_insn 2])) \<le> 1"
    by blast
  moreover have "sr ((take_trap sample_config 21 sample_state)\<lparr>sr := 0xFF21, pc := 0x2004\<rparr>)
        AND SR_ET sample_config \<noteq> 0"
    by (simp add: sample_config_def)
  ultimately show ?thesis using w sample_rearm_loop sample_layout_ok by simp
qed

end
